theory Spec2Isabelle
  imports Complex_Main "HOL-Library.Sublist"
begin

section \<open>Readability metrics: a model of \<^verbatim>\<open>readability.py\<close>\<close>

text \<open>
  The module is Python 2 code (it tests \<^verbatim>\<open>isinstance(text, unicode)\<close>). A text is
  modelled as a Python 2 byte string (\<^verbatim>\<open>str\<close>), that is a \<^typ>\<open>string\<close> of
  8-bit characters; a \<^verbatim>\<open>unicode\<close> text is turned into one by the first statement of
  \<^verbatim>\<open>preprocess\<close>, modelled by \<open>to_str\<close> below. Python integers are \<^typ>\<open>int\<close>.
  Python floats are modelled by \<^typ>\<open>real\<close>: rounding and overflow are not modelled.
  The two exceptions the arithmetic can raise are values of the type \<open>error\<close>.

  Every \<^verbatim>\<open>re.sub\<close> of the source is modelled by a scanner of its own that walks the
  text from left to right, replaces the leftmost match at each position and continues
  behind it, as \<^verbatim>\<open>re.sub\<close> does for patterns that never match the empty string.
\<close>

subsection \<open>Character classes\<close>

definition is_space :: "char \<Rightarrow> bool" where
  \<comment> \<open>\<^verbatim>\<open>\s\<close> on a byte string without flags: \<^verbatim>\<open>[ \t\n\r\f\v]\<close>; also what
      \<^verbatim>\<open>str.split()\<close> splits on.\<close>
  "is_space c = (c = CHR '' '' \<or> c = CHR 0x09 \<or> c = CHR 0x0A \<or> c = CHR 0x0D
                 \<or> c = CHR 0x0C \<or> c = CHR 0x0B)"

definition is_blank :: "char \<Rightarrow> bool" where
  \<comment> \<open>\<^verbatim>\<open>[ ]\<close>\<close>
  "is_blank c = (c = CHR '' '')"

definition is_punct :: "char \<Rightarrow> bool" where
  \<comment> \<open>\<^verbatim>\<open>[,:;()\-]\<close>\<close>
  "is_punct c = (c = CHR '','' \<or> c = CHR '':'' \<or> c = CHR '';'' \<or> c = CHR ''(''
                 \<or> c = CHR '')'' \<or> c = CHR ''-'')"

definition is_terminator :: "char \<Rightarrow> bool" where
  \<comment> \<open>\<^verbatim>\<open>[\.!?]\<close>\<close>
  "is_terminator c = (c = CHR ''.'' \<or> c = CHR ''!'' \<or> c = CHR ''?'')"

definition is_dot_or_blank :: "char \<Rightarrow> bool" where
  \<comment> \<open>\<^verbatim>\<open>[\. ]\<close>\<close>
  "is_dot_or_blank c = (c = CHR ''.'' \<or> c = CHR '' '')"

definition is_upper :: "char \<Rightarrow> bool" where
  \<comment> \<open>\<^verbatim>\<open>[A-Z]\<close>, by character code\<close>
  "is_upper c = ((65::nat) \<le> of_char c \<and> of_char c \<le> (90::nat))"

definition is_lower :: "char \<Rightarrow> bool" where
  \<comment> \<open>\<^verbatim>\<open>[a-z]\<close>; also \<^verbatim>\<open>str.islower()\<close> of a one-character byte string\<close>
  "is_lower c = ((97::nat) \<le> of_char c \<and> of_char c \<le> (122::nat))"

definition is_letter :: "char \<Rightarrow> bool" where
  \<comment> \<open>\<^verbatim>\<open>[A-Za-z]\<close>\<close>
  "is_letter c = (is_upper c \<or> is_lower c)"

definition is_vowel :: "char \<Rightarrow> bool" where
  \<comment> \<open>\<^verbatim>\<open>[aeiouy]\<close>\<close>
  "is_vowel c = (c = CHR ''a'' \<or> c = CHR ''e'' \<or> c = CHR ''i'' \<or> c = CHR ''o''
                 \<or> c = CHR ''u'' \<or> c = CHR ''y'')"

definition to_lower :: "char \<Rightarrow> char" where
  \<comment> \<open>one character of \<^verbatim>\<open>str.lower()\<close>: only \<^verbatim>\<open>A-Z\<close> change\<close>
  "to_lower c = (if is_upper c then char_of (of_char c + (32::nat)) else c)"

subsection \<open>Unicode texts\<close>

text \<open>
  \<^verbatim>\<open>unicodedata.normalize('NFKD', text).encode('ascii', 'ignore')\<close>: the normalisation
  is a table of the Python library and a parameter here; the encoding drops every code
  point above 127. All functions of the module except \<^verbatim>\<open>syllable_count\<close> begin by
  preprocessing their argument, so on a \<^verbatim>\<open>unicode\<close> text they compute what they
  compute on the byte string \<open>to_str nfkd text\<close>.
\<close>

datatype pytext = Str string | Unicode "nat list"

definition encode_ascii_ignore :: "nat list \<Rightarrow> string" where
  "encode_ascii_ignore u = map char_of (filter (\<lambda>n. n < 128) u)"

definition to_str :: "(nat list \<Rightarrow> nat list) \<Rightarrow> pytext \<Rightarrow> string" where
  "to_str nfkd text = (case text of Str s \<Rightarrow> s | Unicode u \<Rightarrow> encode_ascii_ignore (nfkd u))"

subsection \<open>The preprocessor\<close>

text \<open>\<^verbatim>\<open>re.sub(r'</'+tag+'>', '.', text)\<close>: a literal pattern.\<close>

function sub_literal :: "string \<Rightarrow> string \<Rightarrow> string \<Rightarrow> string" where
  "sub_literal pat rep [] = []"
| "sub_literal pat rep (c # cs) =
     (if pat \<noteq> [] \<and> prefix pat (c # cs)
      then rep @ sub_literal pat rep (drop (length pat) (c # cs))
      else c # sub_literal pat rep cs)"
  by pat_completeness auto
termination
  by (relation "measure (\<lambda>(pat, rep, s). length s)") auto

definition fullStopTags :: "string list" where
  "fullStopTags = [''li'', ''p'', ''h1'', ''h2'', ''h3'', ''h4'', ''h5'', ''h6'', ''dd'']"

definition sub_full_stop_tags :: "string \<Rightarrow> string" where
  \<comment> \<open>the \<^verbatim>\<open>for tag in fullStopTags\<close> loop\<close>
  "sub_full_stop_tags text =
     foldl (\<lambda>t tag. sub_literal (''</'' @ tag @ ''>'') ''.'' t) text fullStopTags"

text \<open>
  \<^verbatim>\<open>re.sub(r'<[^>]+>', '', text)\<close>: at a \<^verbatim>\<open><\<close> the greedy \<^verbatim>\<open>[^>]+\<close> takes every
  character up to the next \<^verbatim>\<open>>\<close>; the match succeeds when it took at least one character
  and a \<^verbatim>\<open>>\<close> follows (a shorter run is followed by a character that is not \<^verbatim>\<open>>\<close>).
\<close>

function strip_html :: "string \<Rightarrow> string" where
  "strip_html [] = []"
| "strip_html (c # cs) =
     (if c = CHR ''<'' \<and> takeWhile (\<lambda>x. x \<noteq> CHR ''>'') cs \<noteq> []
         \<and> dropWhile (\<lambda>x. x \<noteq> CHR ''>'') cs \<noteq> []
      then strip_html (tl (dropWhile (\<lambda>x. x \<noteq> CHR ''>'') cs))
      else c # strip_html cs)"
  by pat_completeness auto
termination
proof (relation "measure length")
  fix c :: char and cs :: string
  have "length (tl (dropWhile (\<lambda>x. x \<noteq> CHR ''>'') cs)) \<le> length cs"
    using length_dropWhile_le [of "\<lambda>x. x \<noteq> CHR ''>''" cs] by simp
  then show "(tl (dropWhile (\<lambda>x. x \<noteq> CHR ''>'') cs), c # cs) \<in> measure length"
    by simp
qed auto

definition sub_punct :: "string \<Rightarrow> string" where
  \<comment> \<open>\<^verbatim>\<open>re.sub(r'[,:;()\-]', ' ', text)\<close>\<close>
  "sub_punct text = map (\<lambda>c. if is_punct c then CHR '' '' else c) text"

definition unify_terminators :: "string \<Rightarrow> string" where
  \<comment> \<open>\<^verbatim>\<open>re.sub(r'[\.!?]', '.', text)\<close>\<close>
  "unify_terminators text = map (\<lambda>c. if is_terminator c then CHR ''.'' else c) text"

definition strip_leading :: "string \<Rightarrow> string" where
  \<comment> \<open>\<^verbatim>\<open>re.sub(r'^\s+', '', text)\<close>: without MULTILINE, \<^verbatim>\<open>^\<close> is the start of the text\<close>
  "strip_leading text = dropWhile is_space text"

text \<open>
  \<^verbatim>\<open>re.sub(r'[ ]*(\n|\r\n|\r)[ ]*', ' ', text)\<close>: the alternatives are tried in the
  order written, so a \<^verbatim>\<open>\r\n\<close> is one line break.
\<close>

fun match_newline :: "string \<Rightarrow> string option" where
  "match_newline [] = None"
| "match_newline (c # cs) =
     (if c = CHR 0x0A then Some cs
      else if c = CHR 0x0D then
        (case cs of [] \<Rightarrow> Some cs
         | d # ds \<Rightarrow> if d = CHR 0x0A then Some ds else Some cs)
      else None)"

lemma match_newline_length: "match_newline s = Some r \<Longrightarrow> length r < length s"
  by (cases s) (auto split: if_splits list.splits)

function sub_newlines :: "string \<Rightarrow> string" where
  "sub_newlines [] = []"
| "sub_newlines (c # cs) =
     (case match_newline (dropWhile is_blank (c # cs)) of
        Some rest \<Rightarrow> CHR '' '' # sub_newlines (dropWhile is_blank rest)
      | None \<Rightarrow> c # sub_newlines cs)"
  by pat_completeness auto

termination
proof (relation "measure length")
  fix c :: char and cs rest :: string
  assume m: "match_newline (dropWhile is_blank (c # cs)) = Some rest"
  have "length (dropWhile is_blank rest) \<le> length rest"
    by (rule length_dropWhile_le)
  also have "\<dots> < length (dropWhile is_blank (c # cs))"
    using m by (rule match_newline_length)
  also have "\<dots> \<le> length (c # cs)"
    by (rule length_dropWhile_le)
  finally show "(dropWhile is_blank rest, c # cs) \<in> measure length"
    by simp
qed auto

text \<open>\<^verbatim>\<open>re.sub(r'([\.])[\. ]+', '.', text)\<close>\<close>

function dedupe_terminators :: "string \<Rightarrow> string" where
  "dedupe_terminators [] = []"
| "dedupe_terminators (c # cs) =
     (if c = CHR ''.'' \<and> takeWhile is_dot_or_blank cs \<noteq> []
      then CHR ''.'' # dedupe_terminators (dropWhile is_dot_or_blank cs)
      else c # dedupe_terminators cs)"
  by pat_completeness auto
termination
  by (relation "measure length") (auto simp: less_Suc_eq_le length_dropWhile_le)

text \<open>\<^verbatim>\<open>re.sub(r'[ ]*([\.])', '. ', text)\<close>\<close>

function pad_terminators :: "string \<Rightarrow> string" where
  "pad_terminators [] = []"
| "pad_terminators (c # cs) =
     (case dropWhile is_blank (c # cs) of
        [] \<Rightarrow> c # pad_terminators cs
      | d # rest \<Rightarrow> if d = CHR ''.'' then ''. '' @ pad_terminators rest
                    else c # pad_terminators cs)"
  by pat_completeness auto
termination
proof (relation "measure length")
  fix c d :: char and cs rest :: string
  assume "dropWhile is_blank (c # cs) = d # rest"
  then have "length (d # rest) \<le> length (c # cs)"
    using length_dropWhile_le [of is_blank "c # cs"] by simp
  then show "(rest, c # cs) \<in> measure length"
    by simp
qed auto

text \<open>\<^verbatim>\<open>re.sub(r'\s+', ' ', text)\<close>\<close>

function collapse_spaces :: "string \<Rightarrow> string" where
  "collapse_spaces [] = []"
| "collapse_spaces (c # cs) =
     (if is_space c then CHR '' '' # collapse_spaces (dropWhile is_space cs)
      else c # collapse_spaces cs)"
  by pat_completeness auto
termination
  by (relation "measure length") (auto simp: less_Suc_eq_le length_dropWhile_le)

text \<open>
  \<^verbatim>\<open>re.sub(r'\s+$', '', text)\<close>: a run of whitespace matches when it reaches the end of
  the text (\<^verbatim>\<open>$\<close> also matches before a final line break, which the greedy run has
  already taken).
\<close>

fun strip_trailing :: "string \<Rightarrow> string" where
  "strip_trailing [] = []"
| "strip_trailing (c # cs) =
     (if is_space c \<and> list_all is_space cs then [] else c # strip_trailing cs)"

text \<open>The statements of \<^verbatim>\<open>preprocess\<close> behind the conversion to a byte string.\<close>

definition preprocess :: "string \<Rightarrow> string" where
  "preprocess text =
     strip_trailing (collapse_spaces (pad_terminators (dedupe_terminators (sub_newlines
       (strip_leading (unify_terminators (sub_punct (strip_html
         (sub_full_stop_tags text)))))))))"

definition preprocess_text :: "(nat list \<Rightarrow> nat list) \<Rightarrow> pytext \<Rightarrow> string" where
  \<comment> \<open>\<^verbatim>\<open>preprocess\<close> on either kind of text\<close>
  "preprocess_text nfkd text = preprocess (to_str nfkd text)"

subsection \<open>Counters\<close>

definition letter_count :: "string \<Rightarrow> int" where
  \<comment> \<open>\<^verbatim>\<open>len(re.sub(r'[^A-Za-z]+', '', text))\<close>: what is left are the letters\<close>
  "letter_count text = (let text = preprocess text in int (length (filter is_letter text)))"

definition sentence_count :: "string \<Rightarrow> int" where
  \<comment> \<open>\<^verbatim>\<open>max(1, len(re.sub(r'[^\.!?]', '', text)))\<close>\<close>
  "sentence_count text =
     (let text = preprocess text in max 1 (int (length (filter is_terminator text))))"

definition word_count :: "string \<Rightarrow> int" where
  \<comment> \<open>\<^verbatim>\<open>1 + len(re.sub(r'[^ ]', '', text))\<close>\<close>
  "word_count text = (let text = preprocess text in 1 + int (length (filter is_blank text)))"

text \<open>\<^verbatim>\<open>text.split()\<close>: the maximal runs of characters that are not whitespace.\<close>

lemma py_split_shorter:
  assumes "dropWhile is_space s = c # cs"
  shows "length (dropWhile (\<lambda>x. \<not> is_space x) (c # cs)) < length s"
proof -
  have "\<not> is_space c"
    using assms hd_dropWhile [of is_space s] by simp
  then have "length (dropWhile (\<lambda>x. \<not> is_space x) (c # cs)) \<le> length cs"
    by (simp add: length_dropWhile_le)
  also have "\<dots> < length (dropWhile is_space s)"
    using assms by simp
  also have "\<dots> \<le> length s"
    by (rule length_dropWhile_le)
  finally show ?thesis .
qed

function py_split :: "string \<Rightarrow> string list" where
  "py_split s =
     (case dropWhile is_space s of
        [] \<Rightarrow> []
      | c # cs \<Rightarrow> takeWhile (\<lambda>x. \<not> is_space x) (c # cs)
                  # py_split (dropWhile (\<lambda>x. \<not> is_space x) (c # cs)))"
  by pat_completeness auto

termination
  by (relation "measure length") (auto simp: py_split_shorter simp del: dropWhile.simps)

definition str_lower :: "string \<Rightarrow> string" where
  \<comment> \<open>\<^verbatim>\<open>str.lower()\<close>\<close>
  "str_lower s = map to_lower s"

definition str_islower :: "string \<Rightarrow> bool" where
  \<comment> \<open>\<^verbatim>\<open>str.islower()\<close>: some cased character, and no upper-case one\<close>
  "str_islower s = (list_ex is_lower s \<and> \<not> list_ex is_upper s)"

text \<open>
  \<^verbatim>\<open>re.split(r'[^aeiouy]+', word)\<close>: the pieces between the maximal runs of characters
  that are not vowels, the empty pieces at both ends included.
\<close>

lemma re_split_shorter:
  assumes "dropWhile is_vowel s = c # cs"
  shows "length (dropWhile (\<lambda>x. \<not> is_vowel x) (c # cs)) < length s"
proof -
  have "\<not> is_vowel c"
    using assms hd_dropWhile [of is_vowel s] by simp
  then have "length (dropWhile (\<lambda>x. \<not> is_vowel x) (c # cs)) \<le> length cs"
    by (simp add: length_dropWhile_le)
  also have "\<dots> < length (dropWhile is_vowel s)"
    using assms by simp
  also have "\<dots> \<le> length s"
    by (rule length_dropWhile_le)
  finally show ?thesis .
qed

function re_split_consonants :: "string \<Rightarrow> string list" where
  "re_split_consonants s =
     (case dropWhile is_vowel s of
        [] \<Rightarrow> [s]
      | c # cs \<Rightarrow> takeWhile is_vowel s
                  # re_split_consonants (dropWhile (\<lambda>x. \<not> is_vowel x) (c # cs)))"
  by pat_completeness auto

termination
  by (relation "measure length") (auto simp: re_split_shorter simp del: dropWhile.simps)

definition syllable_count :: "string \<Rightarrow> int" where
  "syllable_count word =
     (let word = str_lower word;
          word = filter is_lower word;
          word_bits = re_split_consonants word;
          num_bits = foldl (\<lambda>n wb. if wb \<noteq> [] then n + 1 else n) (0::int) word_bits
      in max 1 num_bits)"

definition total_syllables :: "string \<Rightarrow> int" where
  "total_syllables text =
     (let text = preprocess text; words = py_split text
      in sum_list (map syllable_count words))"

definition six_letter_word_count :: "string \<Rightarrow> bool \<Rightarrow> int" where
  "six_letter_word_count text use_proper_nouns =
     (let text = preprocess text;
          num_words = word_count text;
          words = py_split text
      in foldl (\<lambda>num_long_words word.
                  if 6 \<le> length word
                  then (if use_proper_nouns \<or> str_islower (take 1 word)
                        then num_long_words + 1 else num_long_words)
                  else num_long_words) (0::int) words)"

definition three_syllable_word_count :: "string \<Rightarrow> bool \<Rightarrow> int" where
  "three_syllable_word_count text use_proper_nouns =
     (let text = preprocess text;
          num_words = word_count text;
          words = py_split text
      in foldl (\<lambda>num_long_words word.
                  if 3 \<le> syllable_count word
                  then (if use_proper_nouns \<or> str_islower (take 1 word)
                        then num_long_words + 1 else num_long_words)
                  else num_long_words) (0::int) words)"

subsection \<open>Floating-point operations that can raise\<close>

datatype error = ZeroDivisionError | ValueError

definition fdiv :: "real \<Rightarrow> real \<Rightarrow> error + real" where
  \<comment> \<open>\<^verbatim>\<open>x / y\<close> on floats\<close>
  "fdiv x y = (if y = 0 then Inl ZeroDivisionError else Inr (x / y))"

definition fsqrt :: "real \<Rightarrow> error + real" where
  \<comment> \<open>\<^verbatim>\<open>math.sqrt(x)\<close>: a negative argument is a math domain error\<close>
  "fsqrt x = (if x < 0 then Inl ValueError else Inr (sqrt x))"

definition and_then :: "error + 'a \<Rightarrow> ('a \<Rightarrow> error + 'b) \<Rightarrow> error + 'b" where
  \<comment> \<open>sequencing: an exception in the first computation ends the whole one\<close>
  "and_then m f = (case m of Inl e \<Rightarrow> Inl e | Inr v \<Rightarrow> f v)"

subsection \<open>Averages and percentages\<close>

definition avg_words_per_sentence :: "string \<Rightarrow> error + real" where
  "avg_words_per_sentence text =
     (let text = preprocess text
      in fdiv (1.0 * real_of_int (word_count text)) (real_of_int (sentence_count text)))"

definition avg_syllables_per_word :: "string \<Rightarrow> error + real" where
  "avg_syllables_per_word text =
     (let text = preprocess text;
          num_words = word_count text;
          words = py_split text;
          num_syllables = sum_list (map syllable_count words)
      in fdiv (1.0 * real_of_int num_syllables) (real_of_int num_words))"

definition percent_three_syllable_words :: "string \<Rightarrow> bool \<Rightarrow> error + real" where
  "percent_three_syllable_words text use_proper_nouns =
     (let text = preprocess text
      in fdiv (100.0 * real_of_int (three_syllable_word_count text use_proper_nouns))
              (real_of_int (word_count text)))"

subsection \<open>Readability indices\<close>

definition flesch_kincaid_ease :: "string \<Rightarrow> error + real" where
  "flesch_kincaid_ease text =
     (let text = preprocess text
      in and_then (avg_words_per_sentence text) (\<lambda>awps.
         and_then (avg_syllables_per_word text) (\<lambda>aspw.
         Inr (206.835 - (1.015 * awps) - (84.6 * aspw)))))"

definition douma :: "string \<Rightarrow> error + real" where
  "douma text =
     (let text = preprocess text
      in and_then (avg_words_per_sentence text) (\<lambda>awps.
         and_then (avg_syllables_per_word text) (\<lambda>aspw.
         Inr (206.84 - (0.33 * awps) - (0.77 * aspw)))))"

definition kandel_moles :: "string \<Rightarrow> error + real" where
  "kandel_moles text =
     (let text = preprocess text
      in and_then (avg_words_per_sentence text) (\<lambda>awps.
         and_then (avg_syllables_per_word text) (\<lambda>aspw.
         Inr (209 - (1.15 * awps) - (0.68 * aspw)))))"

definition gulpease :: "string \<Rightarrow> error + real" where
  "gulpease text =
     (let text = preprocess text
      in and_then (fdiv (300.0 * real_of_int (sentence_count text)
                         - 10.0 * real_of_int (letter_count text))
                        (real_of_int (word_count text))) (\<lambda>q.
         Inr (89.0 + q)))"

definition fernandez_huerta :: "string \<Rightarrow> error + real" where
  "fernandez_huerta text =
     (let text = preprocess text
      in and_then (fdiv 100.0 (real_of_int (word_count text))) (\<lambda>factor.
         Inr (206.84 - (0.6 * factor * real_of_int (syllable_count text))
                     - (1.02 * factor * real_of_int (sentence_count text)))))"

subsection \<open>Grade level estimators\<close>

definition flesch_kincaid_grade :: "string \<Rightarrow> error + real" where
  "flesch_kincaid_grade text =
     (let text = preprocess text
      in and_then (avg_words_per_sentence text) (\<lambda>awps.
         and_then (avg_syllables_per_word text) (\<lambda>aspw.
         Inr ((0.39 * awps) + (11.8 * aspw) - 15.59))))"

definition gunning_fog :: "string \<Rightarrow> error + real" where
  "gunning_fog text =
     (let text = preprocess text
      in and_then (avg_words_per_sentence text) (\<lambda>awps.
         and_then (percent_three_syllable_words text False) (\<lambda>pct.
         Inr (0.4 * (awps + pct)))))"

definition coleman_liau :: "string \<Rightarrow> error + real" where
  "coleman_liau text =
     (let text = preprocess text
      in and_then (fdiv (5.89 * real_of_int (letter_count text))
                        (real_of_int (word_count text))) (\<lambda>a.
         and_then (fdiv (0.3 * real_of_int (sentence_count text))
                        (real_of_int (word_count text))) (\<lambda>b.
         Inr (a - b - 15.8))))"

definition smog_radicand :: "string \<Rightarrow> error + real" where
  \<comment> \<open>the argument of \<^verbatim>\<open>sqrt\<close> in \<^verbatim>\<open>smog\<close>, from the preprocessed text\<close>
  "smog_radicand text =
     and_then (fdiv 30.0 (real_of_int (sentence_count text))) (\<lambda>q.
     Inr ((real_of_int (three_syllable_word_count text True) * q) + 3.1291))"

definition smog :: "string \<Rightarrow> error + real" where
  "smog text =
     (let text = preprocess text
      in and_then (smog_radicand text) (\<lambda>x.
         and_then (fsqrt x) (\<lambda>r.
         Inr (1.043 * r))))"

definition ari :: "string \<Rightarrow> error + real" where
  "ari text =
     (let text = preprocess text
      in and_then (fdiv (4.71 * real_of_int (letter_count text))
                        (real_of_int (word_count text))) (\<lambda>a.
         and_then (fdiv (0.5 * real_of_int (word_count text))
                        (real_of_int (sentence_count text))) (\<lambda>b.
         Inr (a + b - 21.43))))"

subsection \<open>Other indices\<close>

definition lix :: "string \<Rightarrow> error + real" where
  "lix text =
     (let text = preprocess text;
          num_words = word_count text
      in and_then (fdiv (100.0 * real_of_int (six_letter_word_count text True))
                        (real_of_int num_words)) (\<lambda>a.
         and_then (fdiv (1.0 * real_of_int num_words)
                        (real_of_int (sentence_count text))) (\<lambda>b.
         Inr (a + b))))"

definition rix :: "string \<Rightarrow> error + real" where
  "rix text =
     (let text = preprocess text
      in fdiv (1.0 * real_of_int (six_letter_word_count text True))
              (real_of_int (sentence_count text)))"

subsection \<open>All scores\<close>

definition metric_names :: "string set" where
  "metric_names = {''flesch_kincaid_ease'', ''gulpease'', ''douma'', ''kandel_moles'',
     ''fernandez_huerta'', ''flesch_kincaid_grade'', ''gunning_fog'', ''coleman_liau'',
     ''smog'', ''ari'', ''lix'', ''rix''}"

definition readability_metrics :: "string \<Rightarrow> error + (string \<rightharpoonup> real)" where
  "readability_metrics text =
     and_then (flesch_kincaid_ease text) (\<lambda>v1.
     and_then (gulpease text) (\<lambda>v2.
     and_then (douma text) (\<lambda>v3.
     and_then (kandel_moles text) (\<lambda>v4.
     and_then (fernandez_huerta text) (\<lambda>v5.
     and_then (flesch_kincaid_grade text) (\<lambda>v6.
     and_then (gunning_fog text) (\<lambda>v7.
     and_then (coleman_liau text) (\<lambda>v8.
     and_then (smog text) (\<lambda>v9.
     and_then (ari text) (\<lambda>v10.
     and_then (lix text) (\<lambda>v11.
     and_then (rix text) (\<lambda>v12.
     Inr [''flesch_kincaid_ease'' \<mapsto> v1, ''gulpease'' \<mapsto> v2, ''douma'' \<mapsto> v3,
          ''kandel_moles'' \<mapsto> v4, ''fernandez_huerta'' \<mapsto> v5,
          ''flesch_kincaid_grade'' \<mapsto> v6, ''gunning_fog'' \<mapsto> v7,
          ''coleman_liau'' \<mapsto> v8, ''smog'' \<mapsto> v9, ''ari'' \<mapsto> v10,
          ''lix'' \<mapsto> v11, ''rix'' \<mapsto> v12]))))))))))))"

section \<open>Reference definitions\<close>

text \<open>
  The syllable heuristic as the specification words it: the fragments of a word between
  the maximal runs of characters that are not vowels, read off the word from its end.
\<close>

fun spec_fragments :: "string \<Rightarrow> string list" where
  "spec_fragments [] = [[]]"
| "spec_fragments (c # cs) =
     (if is_vowel c then (c # hd (spec_fragments cs)) # tl (spec_fragments cs)
      else if cs \<noteq> [] \<and> \<not> is_vowel (hd cs) then spec_fragments cs
      else [] # spec_fragments cs)"

definition syllable_count_spec :: "string \<Rightarrow> int" where
  "syllable_count_spec word =
     max 1 (int (length (filter (\<lambda>f. f \<noteq> [])
       (spec_fragments (filter is_lower (map to_lower word))))))"

definition starts_lower :: "string \<Rightarrow> bool" where
  \<comment> \<open>the first character of a token is a lower-case letter\<close>
  "starts_lower w = (case w of [] \<Rightarrow> False | c # _ \<Rightarrow> is_lower c)"

definition fernandez_huerta_spec :: "string \<Rightarrow> real" where
  \<comment> \<open>the Fernandez-Huerta score on the total syllable count of the text\<close>
  "fernandez_huerta_spec text =
     206.84 - 0.6 * (100 / real_of_int (word_count text)) * real_of_int (total_syllables text)
            - 1.02 * (100 / real_of_int (word_count text)) * real_of_int (sentence_count text)"

definition tag_at :: "string \<Rightarrow> bool" where
  \<comment> \<open>the text starts with a match of \<^verbatim>\<open><[^>]+>\<close>\<close>
  "tag_at s = (case s of [] \<Rightarrow> False
     | c # cs \<Rightarrow> c = CHR ''<'' \<and> takeWhile (\<lambda>x. x \<noteq> CHR ''>'') cs \<noteq> []
         \<and> dropWhile (\<lambda>x. x \<noteq> CHR ''>'') cs \<noteq> [])"

fun has_tag :: "string \<Rightarrow> bool" where
  \<comment> \<open>\<^verbatim>\<open><[^>]+>\<close> matches somewhere in the text\<close>
  "has_tag [] = False"
| "has_tag (c # cs) = (tag_at (c # cs) \<or> has_tag cs)"

fun has_pair :: "(char \<Rightarrow> char \<Rightarrow> bool) \<Rightarrow> string \<Rightarrow> bool" where
  \<comment> \<open>two neighbouring characters of the text are related by \<open>R\<close>\<close>
  "has_pair R (c # d # cs) = (R c d \<or> has_pair R (d # cs))"
| "has_pair R [c] = False"
| "has_pair R [] = False"

definition kept_char :: "char \<Rightarrow> bool" where
  \<comment> \<open>not a separator or terminator that the preprocessor replaces, and no whitespace
      but the space\<close>
  "kept_char c = (\<not> is_punct c \<and> c \<noteq> CHR ''!'' \<and> c \<noteq> CHR ''?''
                  \<and> (c = CHR '' '' \<or> \<not> is_space c))"

definition no_outer_space :: "string \<Rightarrow> bool" where
  \<comment> \<open>no whitespace at the start or the end\<close>
  "no_outer_space s = (s = [] \<or> (\<not> is_space (hd s) \<and> \<not> is_space (last s)))"

text \<open>
  What every output of the preprocessor satisfies: no replaced character and no whitespace
  but the space; no two spaces in a row; a \<^verbatim>\<open>.\<close> is the last character or has a
  space behind it; no two \<^verbatim>\<open>.\<close> in a row; no whitespace at either end; no tag.
\<close>

definition canonical_text :: "string \<Rightarrow> bool" where
  "canonical_text s =
     (list_all kept_char s
      \<and> \<not> has_pair (\<lambda>c d. c = CHR '' '' \<and> d = CHR '' '') s
      \<and> \<not> has_pair (\<lambda>c d. c = CHR ''.'' \<and> d \<noteq> CHR '' '') s
      \<and> \<not> has_pair (\<lambda>c d. c = CHR ''.'' \<and> d = CHR ''.'') s
      \<and> no_outer_space s
      \<and> \<not> has_tag s)"

definition is_digit :: "char \<Rightarrow> bool" where
  \<comment> \<open>\<^verbatim>\<open>[0-9]\<close>, by character code\<close>
  "is_digit c = ((48::nat) \<le> of_char c \<and> of_char c \<le> (57::nat))"

text \<open>
  The canonical text as the specification describes it: only ASCII letters (digits are
  let through here, the specification leaves them to later steps), single spaces, each
  \<^verbatim>\<open>.\<close> with a space behind it unless it ends the text, no whitespace at either end, no
  tag, no two \<^verbatim>\<open>.\<close> in a row.
\<close>

definition spec_canonical :: "string \<Rightarrow> bool" where
  "spec_canonical s =
     (list_all (\<lambda>c. is_letter c \<or> is_digit c \<or> c = CHR '' '' \<or> c = CHR ''.'') s
      \<and> \<not> has_pair (\<lambda>c d. c = CHR '' '' \<and> d = CHR '' '') s
      \<and> \<not> has_pair (\<lambda>c d. c = CHR ''.'' \<and> d \<noteq> CHR '' '') s
      \<and> \<not> has_pair (\<lambda>c d. c = CHR ''.'' \<and> d = CHR ''.'') s
      \<and> no_outer_space s
      \<and> \<not> has_tag s)"

text \<open>
  Auxiliary notions for the proofs. Most steps of the preprocessor are local rewrites:
  they copy a character, or replace a stretch of the text that starts at a character
  other than \<^verbatim>\<open><\<close> and \<^verbatim>\<open>>\<close> by spaces and full stops.
\<close>

definition angle :: "char \<Rightarrow> bool" where
  "angle c = (c = CHR ''<'' \<or> c = CHR ''>'')"

definition local_rewrite :: "(string \<Rightarrow> string) \<Rightarrow> bool" where
  "local_rewrite f =
     (f [] = []
      \<and> (\<forall>c cs. f (c # cs) = c # f cs
             \<or> (\<not> angle c \<and> (\<exists>rep rest. f (c # cs) = rep @ f rest \<and> suffix rest cs
                   \<and> (\<forall>x\<in>set rep. is_dot_or_blank x)))))"

fun dots_spaced :: "string \<Rightarrow> bool" where
  \<comment> \<open>every \<^verbatim>\<open>.\<close> has a space behind it, the last one too\<close>
  "dots_spaced [] = True"
| "dots_spaced (c # cs) = ((c \<noteq> CHR ''.'' \<or> (cs \<noteq> [] \<and> hd cs = CHR '' '')) \<and> dots_spaced cs)"

definition clean_head :: "string \<Rightarrow> bool" where
  \<comment> \<open>the text does not start with whitespace\<close>
  "clean_head s = (s = [] \<or> \<not> is_space (hd s))"

definition plain_char :: "char \<Rightarrow> bool" where
  \<comment> \<open>none of the characters that the preprocessor replaces\<close>
  "plain_char c = (\<not> is_punct c \<and> c \<noteq> CHR ''!'' \<and> c \<noteq> CHR ''?'')"

definition no_tabs :: "string \<Rightarrow> bool" where
  \<comment> \<open>no tab, vertical tab or form feed\<close>
  "no_tabs s = list_all (\<lambda>c. c \<noteq> CHR 0x09 \<and> c \<noteq> CHR 0x0B \<and> c \<noteq> CHR 0x0C) s"

definition only_blanks :: "string \<Rightarrow> bool" where
  \<comment> \<open>the only whitespace is the space\<close>
  "only_blanks s = list_all (\<lambda>c. c = CHR '' '' \<or> \<not> is_space c) s"

definition tailfix :: "string \<Rightarrow> string" where
  \<comment> \<open>the space that padding puts behind a terminator at the end of the text\<close>
  "tailfix t = (if t \<noteq> [] \<and> last t = CHR ''.'' then '' '' else [])"

section \<open>Properties\<close>

declare re_split_consonants.simps [simp del]
declare py_split.simps [simp del]

subsection \<open>Counting loops\<close>

lemma count_loop:
  "foldl (\<lambda>n w. if P w then (if Q w then n + 1 else n) else n) (a::int) ws
     = a + int (length (filter (\<lambda>w. P w \<and> Q w) ws))"
  by (induction ws arbitrary: a) auto

lemma count_nonempty:
  "foldl (\<lambda>n wb. if wb \<noteq> [] then n + 1 else n) (a::int) ws
     = a + int (length (filter (\<lambda>f. f \<noteq> []) ws))"
  by (induction ws arbitrary: a) auto

lemma sentence_count_pos: "1 \<le> sentence_count text"
  by (simp add: sentence_count_def Let_def)

lemma word_count_pos: "1 \<le> word_count text"
  by (simp add: word_count_def Let_def)

subsection \<open>Sentence and word counts\<close>

text \<open>
  Claim C4. For every text, the empty one included, \<open>sentence_count\<close> and
  \<open>word_count\<close> are at least 1: a canonical text without a terminator counts as one
  sentence, and a canonical text without a space counts as one word.
\<close>

theorem counts_floored_at_one:
  "1 \<le> sentence_count text \<and> 1 \<le> word_count text
   \<and> sentence_count [] = 1 \<and> word_count [] = 1
   \<and> (filter is_terminator (preprocess text) = [] \<longrightarrow> sentence_count text = 1)
   \<and> (filter is_blank (preprocess text) = [] \<longrightarrow> word_count text = 1)"
proof -
  have "sentence_count [] = 1" by code_simp
  moreover have "word_count [] = 1" by code_simp
  ultimately show ?thesis
    by (simp add: sentence_count_def word_count_def Let_def)
qed

theorem counts_floored_at_one_witness:
  "filter is_terminator (preprocess ''word'') = [] \<and> sentence_count ''word'' = 1
   \<and> filter is_blank (preprocess ''word'') = [] \<and> word_count ''word'' = 1"
proof -
  have t: "filter is_terminator (preprocess ''word'') = []" by code_simp
  have b: "filter is_blank (preprocess ''word'') = []" by code_simp
  from counts_floored_at_one [of "''word''"] t b show ?thesis by blast
qed

text \<open>
  Claim C6, as the specification states it: for \<^verbatim>\<open>"Hi. Bye."\<close> the sentence count is 2,
  the word count is 2 and the letter count is 4. The text has the five letters
  H, i, B, y, e, so the statement is false.
\<close>

theorem hi_bye_letter_count_counterexample:
  "\<not> (sentence_count ''Hi. Bye.'' = 2 \<and> word_count ''Hi. Bye.'' = 2
      \<and> letter_count ''Hi. Bye.'' = 4)"
proof -
  have "letter_count ''Hi. Bye.'' = 5" by code_simp
  then show ?thesis by simp
qed

text \<open>
  Claim C6, amended: for \<^verbatim>\<open>"Hi. Bye."\<close> the sentence count is 2, the word count is 2
  and the letter count is 5.
\<close>

theorem hi_bye_counts:
  "sentence_count ''Hi. Bye.'' = 2 \<and> word_count ''Hi. Bye.'' = 2
   \<and> letter_count ''Hi. Bye.'' = 5"
  by code_simp

text \<open>
  Claim C7. For \<^verbatim>\<open>"<p>Hello world</p><p>Goodbye</p>"\<close> the preprocessor yields the two
  sentences \<^verbatim>\<open>"Hello world."\<close> and \<^verbatim>\<open>"Goodbye."\<close>; the sentence count is 2 and the
  word count is 3.
\<close>

theorem html_paragraphs_example:
  "preprocess ''<p>Hello world</p><p>Goodbye</p>'' = ''Hello world. Goodbye.''
   \<and> sentence_count ''<p>Hello world</p><p>Goodbye</p>'' = 2
   \<and> word_count ''<p>Hello world</p><p>Goodbye</p>'' = 3"
  by code_simp

subsection \<open>The syllable heuristic\<close>

lemma re_split_Nil: "re_split_consonants [] = [[]]"
  by (simp add: re_split_consonants.simps)

lemma re_split_vowel:
  assumes "is_vowel c"
  shows "re_split_consonants (c # cs)
           = (c # hd (re_split_consonants cs)) # tl (re_split_consonants cs)"
proof (cases "dropWhile is_vowel cs")
  case Nil
  show ?thesis
    using assms
    by (simp add: Nil re_split_consonants.simps [of "c # cs"] re_split_consonants.simps [of cs])
next
  case (Cons d ds)
  show ?thesis
    using assms
    by (simp add: Cons re_split_consonants.simps [of "c # cs"] re_split_consonants.simps [of cs])
qed

lemma re_split_consonant:
  assumes "\<not> is_vowel c"
  shows "re_split_consonants (c # cs)
           = [] # re_split_consonants (dropWhile (\<lambda>x. \<not> is_vowel x) cs)"
  using assms by (simp add: re_split_consonants.simps [of "c # cs"])

lemma re_split_run:
  assumes "\<not> is_vowel c" and "cs \<noteq> []" and "\<not> is_vowel (hd cs)"
  shows "re_split_consonants (c # cs) = re_split_consonants cs"
proof -
  obtain d ds where cs: "cs = d # ds"
    using assms(2) by (cases cs) auto
  with assms(3) have d: "\<not> is_vowel d" by simp
  show ?thesis
    unfolding cs using assms(1) d by (simp add: re_split_consonant)
qed

lemma re_split_run_end:
  assumes "\<not> is_vowel c" and "cs = [] \<or> is_vowel (hd cs)"
  shows "re_split_consonants (c # cs) = [] # re_split_consonants cs"
proof -
  have "dropWhile (\<lambda>x. \<not> is_vowel x) cs = cs"
    using assms(2) by (cases cs) auto
  then show ?thesis
    using assms(1) by (simp add: re_split_consonant)
qed

lemma re_split_spec: "re_split_consonants s = spec_fragments s"
proof (induction s)
  case Nil
  show ?case by (simp add: re_split_Nil)
next
  case (Cons c cs)
  show ?case
  proof (cases "is_vowel c")
    case True
    then show ?thesis by (simp add: re_split_vowel Cons.IH)
  next
    case False
    show ?thesis
    proof (cases "cs \<noteq> [] \<and> \<not> is_vowel (hd cs)")
      case True
      with False show ?thesis by (simp add: re_split_run Cons.IH)
    next
      case False
      with \<open>\<not> is_vowel c\<close> have "re_split_consonants (c # cs) = [] # re_split_consonants cs"
        by (intro re_split_run_end) auto
      with False \<open>\<not> is_vowel c\<close> show ?thesis by (auto simp: Cons.IH)
    qed
  qed
qed

text \<open>
  Claim C5. For every word, \<open>syllable_count\<close> is the reference count: lower-case the
  word, keep the letters a to z, split on the maximal runs of characters that are not
  vowels, count the fragments that are not empty, and take at least 1. So the count is at
  least 1 for every string, the empty one, digits and punctuation included.
\<close>

theorem syllable_count_refines_spec:
  "syllable_count word = syllable_count_spec word \<and> 1 \<le> syllable_count word
   \<and> syllable_count [] = 1 \<and> syllable_count ''2013'' = 1 \<and> syllable_count ''?!'' = 1"
proof -
  have "syllable_count word = syllable_count_spec word"
    by (simp add: syllable_count_def syllable_count_spec_def str_lower_def count_nonempty
        re_split_spec)
  moreover have "1 \<le> syllable_count word"
    by (simp add: syllable_count_def)
  moreover have "syllable_count [] = 1" by code_simp
  moreover have "syllable_count ''2013'' = 1" by code_simp
  moreover have "syllable_count ''?!'' = 1" by code_simp
  ultimately show ?thesis by simp
qed

subsection \<open>Long words\<close>

text \<open>
  Claim C9. With capitalised words included, \<open>six_letter_word_count\<close> counts the
  whitespace-delimited tokens of the canonical text that have at least six characters;
  with capitalised words excluded, it counts those of them whose first character is a
  lower-case letter, so a proper noun such as \<^verbatim>\<open>Washington\<close> is left out.
\<close>

theorem six_letter_word_count_tokens:
  "six_letter_word_count text True
     = int (length (filter (\<lambda>w. 6 \<le> length w) (py_split (preprocess text))))
   \<and> six_letter_word_count text False
     = int (length (filter (\<lambda>w. 6 \<le> length w \<and> starts_lower w)
         (py_split (preprocess text))))
   \<and> six_letter_word_count ''Washington'' True = 1
   \<and> six_letter_word_count ''Washington'' False = 0"
proof -
  have l: "str_islower (take (Suc 0) w) = starts_lower w" for w
    by (cases w) (auto simp: str_islower_def starts_lower_def is_lower_def is_upper_def)
  have "six_letter_word_count text True
     = int (length (filter (\<lambda>w. 6 \<le> length w) (py_split (preprocess text))))"
    by (simp add: six_letter_word_count_def Let_def count_loop)
  moreover have "six_letter_word_count text False
     = int (length (filter (\<lambda>w. 6 \<le> length w \<and> starts_lower w)
         (py_split (preprocess text))))"
    by (simp add: six_letter_word_count_def Let_def count_loop l)
  moreover have "six_letter_word_count ''Washington'' True = 1" by code_simp
  moreover have "six_letter_word_count ''Washington'' False = 0" by code_simp
  ultimately show ?thesis by simp
qed

subsection \<open>The formulas never raise\<close>

lemma word_count_neq0: "word_count t \<noteq> 0"
  using word_count_pos [of t] by simp

lemma sentence_count_neq0: "sentence_count t \<noteq> 0"
  using sentence_count_pos [of t] by simp

lemma Inr_ok: "\<exists>w. (Inr x :: error + real) = Inr w"
  by blast

lemma three_syllable_word_count_nonneg: "0 \<le> three_syllable_word_count text b"
  by (simp add: three_syllable_word_count_def Let_def count_loop)

lemma smog_radicand_value:
  "smog_radicand text = Inr (real_of_int (three_syllable_word_count text True)
       * (30 / real_of_int (sentence_count text)) + 3.1291)"
  by (simp add: smog_radicand_def and_then_def fdiv_def sentence_count_neq0)

lemma smog_radicand_lower:
  "3.1291 \<le> real_of_int (three_syllable_word_count text True)
       * (30 / real_of_int (sentence_count text)) + 3.1291"
proof -
  have "0 \<le> real_of_int (three_syllable_word_count text True)"
    using three_syllable_word_count_nonneg [of "text" True] by simp
  moreover have "0 \<le> 30 / real_of_int (sentence_count text)"
    using sentence_count_pos [of "text"] by simp
  ultimately have "0 \<le> real_of_int (three_syllable_word_count text True)
       * (30 / real_of_int (sentence_count text))"
    by (rule mult_nonneg_nonneg)
  then show ?thesis by simp
qed

lemma smog_value:
  "smog text = Inr (1.043 * sqrt (real_of_int (three_syllable_word_count (preprocess text) True)
       * (30 / real_of_int (sentence_count (preprocess text))) + 3.1291))"
proof -
  let ?x = "real_of_int (three_syllable_word_count (preprocess text) True)
                 * (30 / real_of_int (sentence_count (preprocess text))) + 3.1291"
  have "3.1291 \<le> ?x"
    by (rule smog_radicand_lower)
  then have "\<not> ?x < 0" by simp
  then have "fsqrt ?x = Inr (sqrt ?x)"
    unfolding fsqrt_def by (rule if_not_P)
  then show ?thesis
    by (simp add: smog_def Let_def smog_radicand_value and_then_def)
qed

text \<open>
  Claim C10. The argument of the square root in \<open>smog\<close> is the number of words of
  three or more syllables, which is not negative, times 30 over the sentence count, which
  is at least 1, plus 3.1291. So it is at least 3.1291 and positive, the square root is
  never taken of a negative number, and \<open>smog\<close> returns a score for every text.
\<close>

theorem smog_radicand_positive:
  "0 \<le> three_syllable_word_count (preprocess text) True
   \<and> 1 \<le> sentence_count (preprocess text)
   \<and> (\<exists>x. smog_radicand (preprocess text) = Inr x
         \<and> x = real_of_int (three_syllable_word_count (preprocess text) True)
                 * (30 / real_of_int (sentence_count (preprocess text))) + 3.1291
         \<and> 3.1291 \<le> x \<and> 0 < x
         \<and> smog text = Inr (1.043 * sqrt x))"
proof -
  let ?x = "real_of_int (three_syllable_word_count (preprocess text) True)
                 * (30 / real_of_int (sentence_count (preprocess text))) + 3.1291"
  have r: "smog_radicand (preprocess text) = Inr ?x"
    by (rule smog_radicand_value)
  have lo: "3.1291 \<le> ?x"
    by (rule smog_radicand_lower)
  then have pos: "0 < ?x" by simp
  have "smog text = Inr (1.043 * sqrt ?x)"
    by (rule smog_value)
  with r lo pos three_syllable_word_count_nonneg sentence_count_pos show ?thesis
    by blast
qed

lemma fdiv_ok: "y \<noteq> 0 \<Longrightarrow> fdiv x y = Inr (x / y)"
  by (simp add: fdiv_def)

lemma avg_words_per_sentence_ok: "\<exists>v. avg_words_per_sentence text = Inr v"
  by (simp add: avg_words_per_sentence_def Let_def fdiv_ok sentence_count_neq0)

lemma avg_syllables_per_word_ok: "\<exists>v. avg_syllables_per_word text = Inr v"
  by (simp add: avg_syllables_per_word_def Let_def fdiv_ok word_count_neq0)

lemma percent_three_syllable_words_ok: "\<exists>v. percent_three_syllable_words text b = Inr v"
  by (simp add: percent_three_syllable_words_def Let_def fdiv_ok word_count_neq0)

lemma and_then_ok:
  assumes "\<exists>v. m = Inr v" and "\<And>v. \<exists>w. f v = Inr w"
  shows "\<exists>w. and_then m f = Inr w"
  using assms by (auto simp: and_then_def)

lemma flesch_kincaid_ease_ok: "\<exists>v. flesch_kincaid_ease text = Inr v"
  unfolding flesch_kincaid_ease_def Let_def
  by (intro and_then_ok avg_words_per_sentence_ok avg_syllables_per_word_ok Inr_ok)

lemma douma_ok: "\<exists>v. douma text = Inr v"
  unfolding douma_def Let_def
  by (intro and_then_ok avg_words_per_sentence_ok avg_syllables_per_word_ok Inr_ok)

lemma kandel_moles_ok: "\<exists>v. kandel_moles text = Inr v"
  unfolding kandel_moles_def Let_def
  by (intro and_then_ok avg_words_per_sentence_ok avg_syllables_per_word_ok Inr_ok)

lemma flesch_kincaid_grade_ok: "\<exists>v. flesch_kincaid_grade text = Inr v"
  unfolding flesch_kincaid_grade_def Let_def
  by (intro and_then_ok avg_words_per_sentence_ok avg_syllables_per_word_ok Inr_ok)

lemma gunning_fog_ok: "\<exists>v. gunning_fog text = Inr v"
  unfolding gunning_fog_def Let_def
  by (intro and_then_ok avg_words_per_sentence_ok percent_three_syllable_words_ok Inr_ok)

lemma gulpease_ok: "\<exists>v. gulpease text = Inr v"
  by (simp add: gulpease_def Let_def and_then_def fdiv_ok word_count_neq0)

lemma fernandez_huerta_ok: "\<exists>v. fernandez_huerta text = Inr v"
  by (simp add: fernandez_huerta_def Let_def and_then_def fdiv_ok word_count_neq0)

lemma coleman_liau_ok: "\<exists>v. coleman_liau text = Inr v"
  by (simp add: coleman_liau_def Let_def and_then_def fdiv_ok word_count_neq0)

lemma ari_ok: "\<exists>v. ari text = Inr v"
  by (simp add: ari_def Let_def and_then_def fdiv_ok word_count_neq0
      sentence_count_neq0)

lemma lix_ok: "\<exists>v. lix text = Inr v"
  by (simp add: lix_def Let_def and_then_def fdiv_ok word_count_neq0
      sentence_count_neq0)

lemma rix_ok: "\<exists>v. rix text = Inr v"
  by (simp add: rix_def Let_def fdiv_ok sentence_count_neq0)

lemma smog_ok: "\<exists>v. smog text = Inr v"
  using smog_value by blast

text \<open>
  Claim C1. For every text, the empty one included, \<open>readability_metrics\<close> raises no
  exception and returns a mapping whose keys are exactly the twelve metric names, each
  with a score.
\<close>

theorem readability_metrics_total:
  "\<exists>m. readability_metrics text = Inr m \<and> dom m = metric_names
       \<and> card (dom m) = 12"
proof -
  obtain v1 where v1: "flesch_kincaid_ease text = Inr v1"
    using flesch_kincaid_ease_ok by blast
  obtain v2 where v2: "gulpease text = Inr v2"
    using gulpease_ok by blast
  obtain v3 where v3: "douma text = Inr v3"
    using douma_ok by blast
  obtain v4 where v4: "kandel_moles text = Inr v4"
    using kandel_moles_ok by blast
  obtain v5 where v5: "fernandez_huerta text = Inr v5"
    using fernandez_huerta_ok by blast
  obtain v6 where v6: "flesch_kincaid_grade text = Inr v6"
    using flesch_kincaid_grade_ok by blast
  obtain v7 where v7: "gunning_fog text = Inr v7"
    using gunning_fog_ok by blast
  obtain v8 where v8: "coleman_liau text = Inr v8"
    using coleman_liau_ok by blast
  obtain v9 where v9: "smog text = Inr v9"
    using smog_ok by blast
  obtain v10 where v10: "ari text = Inr v10"
    using ari_ok by blast
  obtain v11 where v11: "lix text = Inr v11"
    using lix_ok by blast
  obtain v12 where v12: "rix text = Inr v12"
    using rix_ok by blast
  let ?m = "[''flesch_kincaid_ease'' \<mapsto> v1, ''gulpease'' \<mapsto> v2, ''douma'' \<mapsto> v3,
          ''kandel_moles'' \<mapsto> v4, ''fernandez_huerta'' \<mapsto> v5,
          ''flesch_kincaid_grade'' \<mapsto> v6, ''gunning_fog'' \<mapsto> v7,
          ''coleman_liau'' \<mapsto> v8, ''smog'' \<mapsto> v9, ''ari'' \<mapsto> v10,
          ''lix'' \<mapsto> v11, ''rix'' \<mapsto> v12]"
  have r: "readability_metrics text = Inr ?m"
    by (simp add: readability_metrics_def and_then_def v1 v2 v3 v4 v5 v6 v7 v8 v9 v10 v11 v12)
  have d: "dom ?m = metric_names"
    by (auto simp: metric_names_def)
  have c: "card metric_names = 12"
    unfolding metric_names_def by simp
  from r d c show ?thesis by auto
qed

text \<open>
  Claim C2 says that \<open>fernandez_huerta\<close> is the Fernandez-Huerta formula on the total
  syllable count of the text. The code calls \<open>syllable_count\<close>, the estimator for one
  word, on the whole canonical text instead: for \<^verbatim>\<open>"I am"\<close> that is one syllable, not
  two, and the score is 125.84, not 95.84.
\<close>

theorem fernandez_huerta_syllables_mismatch:
  "fernandez_huerta ''I am'' = Inr 125.84 \<and> fernandez_huerta_spec ''I am'' = 95.84
   \<and> fernandez_huerta ''I am'' \<noteq> Inr (fernandez_huerta_spec ''I am'')"
proof -
  have p: "preprocess ''I am'' = ''I am''" by code_simp
  have w: "word_count ''I am'' = 2" by code_simp
  have s: "sentence_count ''I am'' = 1" by code_simp
  have y: "syllable_count ''I am'' = 1" by code_simp
  have t: "total_syllables ''I am'' = 2" by code_simp
  have a: "fernandez_huerta ''I am'' = Inr 125.84"
    by (simp add: fernandez_huerta_def Let_def p w s y and_then_def fdiv_def)
  have b: "fernandez_huerta_spec ''I am'' = 95.84"
    by (simp add: fernandez_huerta_spec_def w s t)
  from a b show ?thesis by simp
qed

subsection \<open>Lists\<close>

lemma set_tl_subset: "set (tl ys) \<subseteq> set ys"
  by (cases ys) auto

lemma set_dropWhile_subset: "set (dropWhile P xs) \<subseteq> set xs"
  using set_dropWhileD by fastforce

lemma set_tl_dropWhile: "set (tl (dropWhile P xs)) \<subseteq> set xs"
proof -
  have "set (tl (dropWhile P xs)) \<subseteq> set (dropWhile P xs)"
    by (rule set_tl_subset)
  also have "\<dots> \<subseteq> set xs"
    by (rule set_dropWhile_subset)
  finally show ?thesis .
qed

subsection \<open>Tags\<close>

lemma tag_at_Cons:
  "tag_at (c # cs) = (c = CHR ''<'' \<and> cs \<noteq> [] \<and> hd cs \<noteq> CHR ''>'' \<and> CHR ''>'' \<in> set cs)"
proof -
  have "takeWhile (\<lambda>x. x \<noteq> CHR ''>'') cs \<noteq> [] \<longleftrightarrow> cs \<noteq> [] \<and> hd cs \<noteq> CHR ''>''"
    by (cases cs) simp_all
  moreover have "dropWhile (\<lambda>x. x \<noteq> CHR ''>'') cs \<noteq> [] \<longleftrightarrow> CHR ''>'' \<in> set cs"
    by (induction cs) simp_all
  ultimately show ?thesis
    unfolding tag_at_def list.case by blast
qed

lemma dot_or_blank_not_angle: "is_dot_or_blank c \<Longrightarrow> \<not> angle c"
  by (auto simp: is_dot_or_blank_def angle_def)

lemma has_tag_not_open: "c \<noteq> CHR ''<'' \<Longrightarrow> has_tag (c # s) = has_tag s"
  by (simp add: tag_at_Cons)

lemma has_tag_append: "\<forall>x\<in>set rep. \<not> angle x \<Longrightarrow> has_tag (rep @ s) = has_tag s"
proof (induction rep)
  case Nil
  show ?case by simp
next
  case (Cons r rep)
  then have "r \<noteq> CHR ''<''" by (simp add: angle_def)
  then have "has_tag ((r # rep) @ s) = has_tag (rep @ s)"
    using has_tag_not_open [of r "rep @ s"] by simp
  with Cons show ?case by simp
qed

lemma has_tag_suffix: "suffix t s \<Longrightarrow> has_tag t \<Longrightarrow> has_tag s"
proof (induction s)
  case Nil
  then show ?case by simp
next
  case (Cons c cs)
  from Cons.prems(1) consider "t = c # cs" | "suffix t cs"
    by (auto simp: suffix_Cons)
  then show ?case
  proof cases
    case 1
    with Cons.prems(2) show ?thesis by simp
  next
    case 2
    with Cons have "has_tag cs" by blast
    then show ?thesis by simp
  qed
qed

lemma local_rewrite_Nil: "local_rewrite f \<Longrightarrow> f [] = []"
  by (simp add: local_rewrite_def)

lemma local_rewrite_angle:
  "local_rewrite f \<Longrightarrow> angle c \<Longrightarrow> f (c # cs) = c # f cs"
  unfolding local_rewrite_def by blast

lemma local_rewrite_cases:
  assumes "local_rewrite f"
  obtains (keep) "f (c # cs) = c # f cs"
  | (rewrite) rep rest where "\<not> angle c" and "f (c # cs) = rep @ f rest"
      and "suffix rest cs" and "\<forall>x\<in>set rep. is_dot_or_blank x"
  using assms unfolding local_rewrite_def by blast

lemma suffix_shorter: "suffix rest cs \<Longrightarrow> length rest < length (c # cs)"
  by (auto dest: suffix_length_le)

lemma local_rewrite_close:
  assumes f: "local_rewrite f"
  shows "CHR ''>'' \<in> set (f s) \<Longrightarrow> CHR ''>'' \<in> set s"
proof (induction s rule: length_induct)
  case (1 s)
  show ?case
  proof (cases s)
    case Nil
    with 1(2) f show ?thesis by (simp add: local_rewrite_Nil)
  next
    case (Cons c cs)
    show ?thesis
    proof (rule local_rewrite_cases [OF f, of c cs])
      assume keep: "f (c # cs) = c # f cs"
      have "CHR ''>'' \<in> set (f cs) \<Longrightarrow> CHR ''>'' \<in> set cs"
        using 1(1) Cons by simp
      with 1(2) keep Cons show ?thesis by auto
    next
      fix rep rest
      assume rw: "\<not> angle c" "f (c # cs) = rep @ f rest" "suffix rest cs"
        "\<forall>x\<in>set rep. is_dot_or_blank x"
      have len: "length rest < length s"
        unfolding Cons using rw(3) by (rule suffix_shorter)
      have "CHR ''>'' \<notin> set rep"
      proof
        assume "CHR ''>'' \<in> set rep"
        with rw(4) have "is_dot_or_blank (CHR ''>'')" by blast
        then show False by (simp add: is_dot_or_blank_def)
      qed
      with 1(2) rw(2) Cons have "CHR ''>'' \<in> set (f rest)"
        by simp
      with 1(1) len have "CHR ''>'' \<in> set rest" by blast
      with rw(3) have "CHR ''>'' \<in> set cs"
        using set_mono_suffix by blast
      with Cons show ?thesis by simp
    qed
  qed
qed

lemma local_rewrite_no_tag:
  assumes f: "local_rewrite f"
  shows "\<not> has_tag s \<Longrightarrow> \<not> has_tag (f s)"
proof (induction s rule: length_induct)
  case (1 s)
  show ?case
  proof (cases s)
    case Nil
    with f show ?thesis by (simp add: local_rewrite_Nil)
  next
    case (Cons c cs)
    from 1(2) Cons have nt: "\<not> tag_at (c # cs)" and ncs: "\<not> has_tag cs"
      by simp_all
    show ?thesis
    proof (rule local_rewrite_cases [OF f, of c cs])
      assume keep: "f (c # cs) = c # f cs"
      have ih: "\<not> has_tag (f cs)"
        using 1(1) Cons ncs by simp
      have "\<not> tag_at (c # f cs)"
      proof (cases "c = CHR ''<''")
        case False
        then show ?thesis by (simp add: tag_at_Cons)
      next
        case True
        from nt True consider "cs = []" | d ds where "cs = d # ds" "d = CHR ''>''"
          | "CHR ''>'' \<notin> set cs"
          by (cases cs) (auto simp: tag_at_Cons)
        then show ?thesis
        proof cases
          case 1
          with f show ?thesis by (simp add: tag_at_Cons local_rewrite_Nil)
        next
          case 2
          then have "f cs = CHR ''>'' # f ds"
            using local_rewrite_angle [OF f, of "CHR ''>''" ds] by (simp add: angle_def)
          then show ?thesis by (simp add: tag_at_Cons)
        next
          case 3
          then have "CHR ''>'' \<notin> set (f cs)"
            using local_rewrite_close [OF f] by blast
          then show ?thesis by (simp add: tag_at_Cons)
        qed
      qed
      with ih keep Cons show ?thesis by simp
    next
      fix rep rest
      assume rw: "\<not> angle c" "f (c # cs) = rep @ f rest" "suffix rest cs"
        "\<forall>x\<in>set rep. is_dot_or_blank x"
      have len: "length rest < length s"
        unfolding Cons using rw(3) by (rule suffix_shorter)
      have "\<not> has_tag rest"
        using ncs rw(3) has_tag_suffix by blast
      with 1(1) len have "\<not> has_tag (f rest)" by blast
      moreover have "\<forall>x\<in>set rep. \<not> angle x"
        using rw(4) dot_or_blank_not_angle by blast
      ultimately show ?thesis
        using rw(2) Cons by (simp add: has_tag_append)
    qed
  qed
qed

lemma space_not_angle: "is_space c \<Longrightarrow> \<not> angle c"
  by (auto simp: is_space_def angle_def)

lemma blank_space: "is_blank c \<Longrightarrow> is_space c"
  by (simp add: is_blank_def is_space_def)

lemma blank_not_angle: "is_blank c \<Longrightarrow> \<not> angle c"
  by (simp add: is_blank_def angle_def)

lemma dot_not_angle: "\<not> angle (CHR ''.'')"
  by (simp add: angle_def)

lemma local_rewrite_map:
  assumes "\<And>c. g c = c \<or> (\<not> angle c \<and> is_dot_or_blank (g c))"
  shows "local_rewrite (map g)"
  unfolding local_rewrite_def
proof (intro conjI allI)
  show "map g [] = []" by simp
next
  fix c cs
  from assms [of c] show "map g (c # cs) = c # map g cs \<or>
       (\<not> angle c \<and> (\<exists>rep rest. map g (c # cs) = rep @ map g rest \<and> suffix rest cs
             \<and> (\<forall>x\<in>set rep. is_dot_or_blank x)))"
  proof
    assume "g c = c"
    then show ?thesis by simp
  next
    assume a: "\<not> angle c \<and> is_dot_or_blank (g c)"
    have "map g (c # cs) = [g c] @ map g cs \<and> suffix cs cs
        \<and> (\<forall>x\<in>set [g c]. is_dot_or_blank x)"
      using a by simp
    with a show ?thesis by blast
  qed
qed

lemma local_rewrite_sub_punct: "local_rewrite sub_punct"
proof -
  have "local_rewrite (map (\<lambda>c. if is_punct c then CHR '' '' else c))"
    by (rule local_rewrite_map) (auto simp: is_punct_def angle_def is_dot_or_blank_def)
  moreover have "sub_punct = map (\<lambda>c. if is_punct c then CHR '' '' else c)"
    by (rule ext) (simp add: sub_punct_def)
  ultimately show ?thesis by simp
qed

lemma local_rewrite_unify_terminators: "local_rewrite unify_terminators"
proof -
  have "local_rewrite (map (\<lambda>c. if is_terminator c then CHR ''.'' else c))"
    by (rule local_rewrite_map) (auto simp: is_terminator_def angle_def is_dot_or_blank_def)
  moreover have "unify_terminators = map (\<lambda>c. if is_terminator c then CHR ''.'' else c)"
    by (rule ext) (simp add: unify_terminators_def)
  ultimately show ?thesis by simp
qed

lemma local_rewriteI:
  assumes "f [] = []"
    and "\<And>c cs. f (c # cs) = c # f cs
           \<or> (\<not> angle c \<and> (\<exists>rep rest. f (c # cs) = rep @ f rest \<and> suffix rest cs
                 \<and> (\<forall>x\<in>set rep. is_dot_or_blank x)))"
  shows "local_rewrite f"
  using assms unfolding local_rewrite_def by blast

lemma match_newline_space: "match_newline (c # cs) = Some rest \<Longrightarrow> is_space c"
  by (auto simp: is_space_def split: if_splits)

lemma match_newline_suffix: "match_newline s = Some rest \<Longrightarrow> suffix rest s"
proof (cases s)
  case Nil
  assume "match_newline s = Some rest"
  with Nil show ?thesis by simp
next
  case (Cons c cs)
  assume m: "match_newline s = Some rest"
  then consider "rest = cs" | d where "cs = d # rest"
    unfolding Cons by (cases cs) (auto split: if_splits)
  then show ?thesis
  proof cases
    case 1
    then show ?thesis unfolding Cons by (simp add: suffix_ConsI)
  next
    case 2
    then show ?thesis unfolding Cons by (simp add: suffix_ConsI)
  qed
qed

lemma dropWhile_Cons_suffix: "dropWhile P (c # cs) = d # ds \<Longrightarrow> suffix ds cs"
proof (cases "P c")
  case True
  assume "dropWhile P (c # cs) = d # ds"
  with True have "dropWhile P cs = d # ds" by simp
  then have "suffix (d # ds) cs"
    using suffix_dropWhile [of P cs] by simp
  then show ?thesis by (rule suffix_ConsD)
next
  case False
  assume "dropWhile P (c # cs) = d # ds"
  with False show ?thesis by simp
qed

lemma dropWhile_Cons_head: "dropWhile P (c # cs) = d # ds \<Longrightarrow> P c \<or> c = d"
  by (cases "P c") simp_all

lemma match_newline_tail: "match_newline (d # ds) = Some rest \<Longrightarrow> suffix rest ds"
proof -
  assume "match_newline (d # ds) = Some rest"
  then consider "rest = ds" | e where "ds = e # rest"
    by (cases ds) (auto split: if_splits)
  then show ?thesis
  proof cases
    case 1
    then show ?thesis by simp
  next
    case 2
    then show ?thesis by (simp add: suffix_ConsI)
  qed
qed

lemma local_rewrite_sub_newlines: "local_rewrite sub_newlines"
proof (rule local_rewriteI)
  show "sub_newlines [] = []" by simp
next
  fix c cs
  show "sub_newlines (c # cs) = c # sub_newlines cs
      \<or> (\<not> angle c \<and> (\<exists>rep rest. sub_newlines (c # cs) = rep @ sub_newlines rest
            \<and> suffix rest cs \<and> (\<forall>x\<in>set rep. is_dot_or_blank x)))"
  proof (cases "match_newline (dropWhile is_blank (c # cs))")
    case None
    then show ?thesis by simp
  next
    case (Some rest)
    then obtain d ds where dw: "dropWhile is_blank (c # cs) = d # ds"
      by (cases "dropWhile is_blank (c # cs)") auto
    with Some have m: "match_newline (d # ds) = Some rest" by simp
    have "is_blank c \<or> c = d"
      using dw by (rule dropWhile_Cons_head)
    moreover have "is_space d"
      using m by (rule match_newline_space)
    ultimately have na: "\<not> angle c"
      using blank_not_angle space_not_angle by blast
    have "suffix rest ds"
      using m by (rule match_newline_tail)
    moreover have "suffix ds cs"
      using dw by (rule dropWhile_Cons_suffix)
    moreover have "suffix (dropWhile is_blank rest) rest"
      by (rule suffix_dropWhile)
    ultimately have su: "suffix (dropWhile is_blank rest) cs"
      using suffix_order.trans by blast
    have "sub_newlines (c # cs) = [CHR '' ''] @ sub_newlines (dropWhile is_blank rest)"
      using Some by simp
    moreover have "\<forall>x\<in>set [CHR '' '']. is_dot_or_blank x"
      by (simp add: is_dot_or_blank_def)
    ultimately show ?thesis using na su by blast
  qed
qed

lemma local_rewrite_dedupe_terminators: "local_rewrite dedupe_terminators"
proof (rule local_rewriteI)
  show "dedupe_terminators [] = []" by simp
next
  fix c cs
  show "dedupe_terminators (c # cs) = c # dedupe_terminators cs
      \<or> (\<not> angle c \<and> (\<exists>rep rest. dedupe_terminators (c # cs) = rep @ dedupe_terminators rest
            \<and> suffix rest cs \<and> (\<forall>x\<in>set rep. is_dot_or_blank x)))"
  proof (cases "c = CHR ''.'' \<and> takeWhile is_dot_or_blank cs \<noteq> []")
    case False
    then show ?thesis by auto
  next
    case True
    then have "dedupe_terminators (c # cs)
        = [CHR ''.''] @ dedupe_terminators (dropWhile is_dot_or_blank cs)"
      by simp
    moreover have "suffix (dropWhile is_dot_or_blank cs) cs"
      by (rule suffix_dropWhile)
    moreover have "\<forall>x\<in>set [CHR ''.'']. is_dot_or_blank x"
      by (simp add: is_dot_or_blank_def)
    moreover have "\<not> angle c"
      using True by (simp add: angle_def)
    ultimately show ?thesis by blast
  qed
qed

lemma local_rewrite_pad_terminators: "local_rewrite pad_terminators"
proof (rule local_rewriteI)
  show "pad_terminators [] = []" by simp
next
  fix c cs
  show "pad_terminators (c # cs) = c # pad_terminators cs
      \<or> (\<not> angle c \<and> (\<exists>rep rest. pad_terminators (c # cs) = rep @ pad_terminators rest
            \<and> suffix rest cs \<and> (\<forall>x\<in>set rep. is_dot_or_blank x)))"
  proof (cases "dropWhile is_blank (c # cs)")
    case Nil
    have "pad_terminators (c # cs) = c # pad_terminators cs"
      by (simp add: Nil del: dropWhile.simps)
    then show ?thesis by simp
  next
    case (Cons d rest)
    show ?thesis
    proof (cases "d = CHR ''.''")
      case False
      then have "pad_terminators (c # cs) = c # pad_terminators cs"
        by (simp add: Cons del: dropWhile.simps)
      then show ?thesis by simp
    next
      case True
      then have "pad_terminators (c # cs) = ''. '' @ pad_terminators rest"
        by (simp add: Cons del: dropWhile.simps)
      moreover have "suffix rest cs"
        using Cons by (rule dropWhile_Cons_suffix)
      moreover have "\<forall>x\<in>set ''. ''. is_dot_or_blank x"
        by (simp add: is_dot_or_blank_def)
      moreover have "is_blank c \<or> c = d"
        using Cons by (rule dropWhile_Cons_head)
      then have "\<not> angle c"
        using True blank_not_angle dot_not_angle by blast
      ultimately show ?thesis by blast
    qed
  qed
qed

lemma local_rewrite_collapse_spaces: "local_rewrite collapse_spaces"
proof (rule local_rewriteI)
  show "collapse_spaces [] = []" by simp
next
  fix c cs
  show "collapse_spaces (c # cs) = c # collapse_spaces cs
      \<or> (\<not> angle c \<and> (\<exists>rep rest. collapse_spaces (c # cs) = rep @ collapse_spaces rest
            \<and> suffix rest cs \<and> (\<forall>x\<in>set rep. is_dot_or_blank x)))"
  proof (cases "is_space c")
    case False
    then show ?thesis by simp
  next
    case True
    then have "collapse_spaces (c # cs) = [CHR '' ''] @ collapse_spaces (dropWhile is_space cs)"
      by simp
    moreover have "suffix (dropWhile is_space cs) cs"
      by (rule suffix_dropWhile)
    moreover have "\<forall>x\<in>set [CHR '' '']. is_dot_or_blank x"
      by (simp add: is_dot_or_blank_def)
    moreover have "\<not> angle c"
      using True by (rule space_not_angle)
    ultimately show ?thesis by blast
  qed
qed

lemma local_rewrite_strip_trailing: "local_rewrite strip_trailing"
proof (rule local_rewriteI)
  show "strip_trailing [] = []" by simp
next
  fix c cs
  show "strip_trailing (c # cs) = c # strip_trailing cs
      \<or> (\<not> angle c \<and> (\<exists>rep rest. strip_trailing (c # cs) = rep @ strip_trailing rest
            \<and> suffix rest cs \<and> (\<forall>x\<in>set rep. is_dot_or_blank x)))"
  proof (cases "is_space c \<and> list_all is_space cs")
    case False
    then show ?thesis by auto
  next
    case True
    then have "strip_trailing (c # cs) = [] @ strip_trailing []"
      by simp
    moreover have "suffix [] cs"
      by simp
    moreover have "\<forall>x\<in>set []. is_dot_or_blank x"
      by simp
    moreover have "\<not> angle c"
      using True space_not_angle by blast
    ultimately show ?thesis by blast
  qed
qed

lemma strip_html_tag:
  "tag_at (c # cs) \<Longrightarrow>
     strip_html (c # cs) = strip_html (tl (dropWhile (\<lambda>x. x \<noteq> CHR ''>'') cs))"
  by (simp add: tag_at_def)

lemma strip_html_keep: "\<not> tag_at (c # cs) \<Longrightarrow> strip_html (c # cs) = c # strip_html cs"
  by (auto simp: tag_at_def)

lemma set_strip_html: "set (strip_html s) \<subseteq> set s"
proof (induction s rule: length_induct)
  case (1 s)
  show ?case
  proof (cases s)
    case Nil
    then show ?thesis by simp
  next
    case (Cons c cs)
    show ?thesis
    proof (cases "tag_at (c # cs)")
      case True
      let ?r = "tl (dropWhile (\<lambda>x. x \<noteq> CHR ''>'') cs)"
      have sub: "set ?r \<subseteq> set cs"
        by (rule set_tl_dropWhile)
      have "suffix ?r cs"
        using suffix_dropWhile suffix_tl suffix_order.trans by blast
      then have "length ?r < length s"
        unfolding Cons by (rule suffix_shorter)
      with 1 have "set (strip_html ?r) \<subseteq> set ?r" by blast
      with sub True Cons show ?thesis
        by (auto simp: strip_html_tag simp del: strip_html.simps)
    next
      case False
      have "set (strip_html cs) \<subseteq> set cs"
        using 1 Cons by simp
      with False Cons show ?thesis
        by (auto simp: strip_html_keep simp del: strip_html.simps)
    qed
  qed
qed

lemma strip_html_no_tag: "\<not> has_tag (strip_html s)"
proof (induction s rule: length_induct)
  case (1 s)
  show ?case
  proof (cases s)
    case Nil
    then show ?thesis by simp
  next
    case (Cons c cs)
    show ?thesis
    proof (cases "tag_at (c # cs)")
      case True
      let ?r = "tl (dropWhile (\<lambda>x. x \<noteq> CHR ''>'') cs)"
      have "suffix ?r cs"
        using suffix_dropWhile suffix_tl suffix_order.trans by blast
      then have "length ?r < length s"
        unfolding Cons by (rule suffix_shorter)
      with 1 have "\<not> has_tag (strip_html ?r)" by blast
      with True Cons show ?thesis
        by (simp add: strip_html_tag del: strip_html.simps)
    next
      case False
      have ih: "\<not> has_tag (strip_html cs)"
        using 1 Cons by simp
      have "\<not> tag_at (c # strip_html cs)"
      proof (cases "c = CHR ''<''")
        case ne: False
        then show ?thesis by (simp add: tag_at_Cons)
      next
        case True
        with False consider "cs = []" | d ds where "cs = d # ds" "d = CHR ''>''"
          | "CHR ''>'' \<notin> set cs"
          by (cases cs) (auto simp: tag_at_Cons)
        then show ?thesis
        proof cases
          case 1
          then show ?thesis by (simp add: tag_at_Cons)
        next
          case 2
          have "\<not> tag_at (d # ds)"
            using 2(2) by (simp add: tag_at_Cons)
          then have "strip_html cs = d # strip_html ds"
            unfolding 2(1) by (rule strip_html_keep)
          with 2(2) show ?thesis by (simp add: tag_at_Cons)
        next
          case 3
          then have "CHR ''>'' \<notin> set (strip_html cs)"
            using set_strip_html by blast
          then show ?thesis by (simp add: tag_at_Cons)
        qed
      qed
      with ih False Cons show ?thesis
        by (simp add: strip_html_keep del: strip_html.simps)
    qed
  qed
qed

lemma strip_leading_no_tag: "\<not> has_tag s \<Longrightarrow> \<not> has_tag (strip_leading s)"
  unfolding strip_leading_def using has_tag_suffix suffix_dropWhile by blast

lemma preprocess_no_tag: "\<not> has_tag (preprocess text)"
  unfolding preprocess_def
  by (intro local_rewrite_no_tag [OF local_rewrite_strip_trailing]
      local_rewrite_no_tag [OF local_rewrite_collapse_spaces]
      local_rewrite_no_tag [OF local_rewrite_pad_terminators]
      local_rewrite_no_tag [OF local_rewrite_dedupe_terminators]
      local_rewrite_no_tag [OF local_rewrite_sub_newlines]
      strip_leading_no_tag
      local_rewrite_no_tag [OF local_rewrite_unify_terminators]
      local_rewrite_no_tag [OF local_rewrite_sub_punct]
      strip_html_no_tag)

subsection \<open>Characters of the output\<close>

lemma local_rewrite_chars:
  assumes f: "local_rewrite f"
  shows "x \<in> set (f s) \<Longrightarrow> is_dot_or_blank x \<or> x \<in> set s"
proof (induction s rule: length_induct)
  case (1 s)
  show ?case
  proof (cases s)
    case Nil
    with 1(2) f show ?thesis by (simp add: local_rewrite_Nil)
  next
    case (Cons c cs)
    show ?thesis
    proof (rule local_rewrite_cases [OF f, of c cs])
      assume keep: "f (c # cs) = c # f cs"
      have "x \<in> set (f cs) \<Longrightarrow> is_dot_or_blank x \<or> x \<in> set cs"
        using 1(1) Cons by simp
      with 1(2) keep Cons show ?thesis by auto
    next
      fix rep rest
      assume rw: "\<not> angle c" "f (c # cs) = rep @ f rest" "suffix rest cs"
        "\<forall>x\<in>set rep. is_dot_or_blank x"
      have len: "length rest < length s"
        unfolding Cons using rw(3) by (rule suffix_shorter)
      from 1(2) rw(2) Cons have "x \<in> set rep \<or> x \<in> set (f rest)"
        by simp
      then show ?thesis
      proof
        assume "x \<in> set rep"
        with rw(4) show ?thesis by blast
      next
        assume "x \<in> set (f rest)"
        with 1(1) len have "is_dot_or_blank x \<or> x \<in> set rest" by blast
        moreover have "set rest \<subseteq> set cs"
          using rw(3) by (rule set_mono_suffix)
        ultimately show ?thesis using Cons by auto
      qed
    qed
  qed
qed

lemma dot_or_blank_plain: "is_dot_or_blank c \<Longrightarrow> plain_char c"
  by (auto simp: is_dot_or_blank_def plain_char_def is_punct_def)

lemma unify_sub_punct_plain: "x \<in> set (unify_terminators (sub_punct s)) \<Longrightarrow> plain_char x"
proof -
  assume "x \<in> set (unify_terminators (sub_punct s))"
  then have "x \<in> (\<lambda>c. if is_terminator c then CHR ''.'' else c) ` set (sub_punct s)"
    by (simp add: unify_terminators_def)
  then obtain y where x: "x = (if is_terminator y then CHR ''.'' else y)"
      and y: "y \<in> set (sub_punct s)"
    by (rule imageE)
  from y have "y \<in> (\<lambda>c. if is_punct c then CHR '' '' else c) ` set s"
    by (simp add: sub_punct_def)
  then obtain z where y': "y = (if is_punct z then CHR '' '' else z)"
    by (rule imageE)
  have py: "\<not> is_punct y"
    unfolding y' by (simp add: is_punct_def)
  show ?thesis
  proof (cases "is_terminator y")
    case True
    with x show ?thesis by (simp add: plain_char_def is_punct_def)
  next
    case False
    with x py show ?thesis by (simp add: plain_char_def is_terminator_def)
  qed
qed

lemma local_rewrite_plain:
  assumes f: "local_rewrite f" and s: "\<forall>x\<in>set s. plain_char x"
  shows "\<forall>x\<in>set (f s). plain_char x"
proof
  fix x
  assume "x \<in> set (f s)"
  then have "is_dot_or_blank x \<or> x \<in> set s"
    by (rule local_rewrite_chars [OF f])
  then show "plain_char x"
  proof
    assume "is_dot_or_blank x"
    then show ?thesis by (rule dot_or_blank_plain)
  next
    assume "x \<in> set s"
    with s show ?thesis by blast
  qed
qed

lemma strip_leading_plain:
  assumes "\<forall>x\<in>set s. plain_char x"
  shows "\<forall>x\<in>set (strip_leading s). plain_char x"
proof -
  have "set (strip_leading s) \<subseteq> set s"
    unfolding strip_leading_def by (rule set_dropWhile_subset)
  with assms show ?thesis by blast
qed

lemma preprocess_plain: "\<forall>x\<in>set (preprocess text). plain_char x"
proof -
  let ?a = "unify_terminators (sub_punct (strip_html (sub_full_stop_tags text)))"
  have "\<forall>x\<in>set ?a. plain_char x"
    using unify_sub_punct_plain by blast
  then have "\<forall>x\<in>set (strip_leading ?a). plain_char x"
    by (rule strip_leading_plain)
  then have "\<forall>x\<in>set (sub_newlines (strip_leading ?a)). plain_char x"
    by (rule local_rewrite_plain [OF local_rewrite_sub_newlines])
  then have "\<forall>x\<in>set (dedupe_terminators (sub_newlines (strip_leading ?a))). plain_char x"
    by (rule local_rewrite_plain [OF local_rewrite_dedupe_terminators])
  then have "\<forall>x\<in>set (pad_terminators (dedupe_terminators (sub_newlines
      (strip_leading ?a)))). plain_char x"
    by (rule local_rewrite_plain [OF local_rewrite_pad_terminators])
  then have "\<forall>x\<in>set (collapse_spaces (pad_terminators (dedupe_terminators (sub_newlines
      (strip_leading ?a))))). plain_char x"
    by (rule local_rewrite_plain [OF local_rewrite_collapse_spaces])
  then have "\<forall>x\<in>set (strip_trailing (collapse_spaces (pad_terminators (dedupe_terminators
      (sub_newlines (strip_leading ?a)))))). plain_char x"
    by (rule local_rewrite_plain [OF local_rewrite_strip_trailing])
  then show ?thesis by (simp only: preprocess_def)
qed

lemma collapse_spaces_blank:
  "x \<in> set (collapse_spaces s) \<Longrightarrow> is_space x \<Longrightarrow> x = CHR '' ''"
proof (induction s rule: collapse_spaces.induct)
  case 1
  then show ?case by simp
next
  case (2 c cs)
  show ?case
  proof (cases "is_space c")
    case True
    with 2(3) have "x = CHR '' '' \<or> x \<in> set (collapse_spaces (dropWhile is_space cs))"
      by simp
    then show ?thesis using 2(1) [OF True] 2(4) by blast
  next
    case False
    with 2(3) have "x = c \<or> x \<in> set (collapse_spaces cs)"
      by simp
    then show ?thesis using 2(2) [OF False] 2(4) False by blast
  qed
qed

lemma set_strip_trailing: "set (strip_trailing s) \<subseteq> set s"
  by (induction s) auto

lemma preprocess_blank:
  assumes "x \<in> set (preprocess text)" and "is_space x"
  shows "x = CHR '' ''"
proof -
  from assms(1) have "x \<in> set (collapse_spaces (pad_terminators (dedupe_terminators
      (sub_newlines (strip_leading (unify_terminators (sub_punct (strip_html
         (sub_full_stop_tags text)))))))))"
    unfolding preprocess_def using set_strip_trailing by blast
  then show ?thesis using assms(2) by (rule collapse_spaces_blank)
qed

lemma preprocess_kept: "list_all kept_char (preprocess text)"
proof -
  have "kept_char x" if "x \<in> set (preprocess text)" for x
  proof -
    have "plain_char x"
      using that preprocess_plain by blast
    moreover have "x = CHR '' '' \<or> \<not> is_space x"
      using that preprocess_blank by blast
    ultimately show ?thesis
      by (simp add: kept_char_def plain_char_def)
  qed
  then show ?thesis by (simp add: list_all_iff)
qed

subsection \<open>The first character\<close>

lemma clean_head_Cons: "clean_head (c # cs) = (\<not> is_space c)"
  by (simp add: clean_head_def)

lemma clean_head_dropWhile: "clean_head (dropWhile is_space s)"
proof (cases "dropWhile is_space s")
  case Nil
  then show ?thesis by (simp add: clean_head_def)
next
  case (Cons d ds)
  then have "\<not> is_space d"
    using hd_dropWhile [of is_space s] by simp
  then show ?thesis by (simp add: Cons clean_head_Cons)
qed

lemma not_space_not_blank: "\<not> is_space c \<Longrightarrow> \<not> is_blank c"
  using blank_space by blast

lemma sub_newlines_head:
  assumes "\<not> is_space c"
  shows "sub_newlines (c # cs) = c # sub_newlines cs"
proof -
  have dw: "dropWhile is_blank (c # cs) = c # cs"
    using assms not_space_not_blank by simp
  have "match_newline (c # cs) = None"
  proof (cases "match_newline (c # cs)")
    case None
    then show ?thesis .
  next
    case (Some r)
    then have "is_space c" by (rule match_newline_space)
    with assms show ?thesis by simp
  qed
  then show ?thesis by (simp add: dw del: dropWhile.simps match_newline.simps)
qed

lemma dedupe_terminators_head: "\<exists>t. dedupe_terminators (c # cs) = c # t"
  by simp

lemma pad_terminators_head:
  assumes "\<not> is_space c"
  shows "\<exists>t. pad_terminators (c # cs) = c # t"
proof -
  have dw: "dropWhile is_blank (c # cs) = c # cs"
    using assms not_space_not_blank by simp
  show ?thesis
  proof (cases "c = CHR ''.''")
    case True
    have "pad_terminators (c # cs) = ''. '' @ pad_terminators cs"
      unfolding pad_terminators.simps dw using True by simp
    with True show ?thesis by simp
  next
    case False
    have "pad_terminators (c # cs) = c # pad_terminators cs"
      unfolding pad_terminators.simps dw using False by simp
    then show ?thesis by simp
  qed
qed

lemma collapse_spaces_head: "\<not> is_space c \<Longrightarrow> collapse_spaces (c # cs) = c # collapse_spaces cs"
  by simp

lemma strip_trailing_head: "\<not> is_space c \<Longrightarrow> strip_trailing (c # cs) = c # strip_trailing cs"
  by simp

lemma clean_head_sub_newlines: "clean_head s \<Longrightarrow> clean_head (sub_newlines s)"
  by (cases s) (simp_all add: clean_head_def sub_newlines_head del: sub_newlines.simps(2))

lemma clean_head_dedupe_terminators: "clean_head s \<Longrightarrow> clean_head (dedupe_terminators s)"
proof (cases s)
  case Nil
  then show ?thesis by (simp add: clean_head_def)
next
  case (Cons c cs)
  assume "clean_head s"
  with Cons have "\<not> is_space c" by (simp add: clean_head_Cons)
  moreover obtain t where "dedupe_terminators (c # cs) = c # t"
    using dedupe_terminators_head by blast
  ultimately show ?thesis by (simp add: Cons clean_head_Cons del: dedupe_terminators.simps)
qed

lemma clean_head_pad_terminators: "clean_head s \<Longrightarrow> clean_head (pad_terminators s)"
proof (cases s)
  case Nil
  then show ?thesis by (simp add: clean_head_def)
next
  case (Cons c cs)
  assume "clean_head s"
  with Cons have c: "\<not> is_space c" by (simp add: clean_head_Cons)
  then obtain t where "pad_terminators (c # cs) = c # t"
    using pad_terminators_head by blast
  with c show ?thesis by (simp add: Cons clean_head_Cons del: pad_terminators.simps)
qed

lemma clean_head_collapse_spaces: "clean_head s \<Longrightarrow> clean_head (collapse_spaces s)"
  by (cases s) (simp_all add: clean_head_def)

lemma clean_head_strip_trailing: "clean_head s \<Longrightarrow> clean_head (strip_trailing s)"
  by (cases s) (simp_all add: clean_head_def)

lemma preprocess_clean_head: "clean_head (preprocess text)"
  unfolding preprocess_def strip_leading_def
  by (intro clean_head_strip_trailing clean_head_collapse_spaces clean_head_pad_terminators
      clean_head_dedupe_terminators clean_head_sub_newlines clean_head_dropWhile)

subsection \<open>The last character\<close>

lemma strip_trailing_Nil: "strip_trailing s = [] \<Longrightarrow> list_all is_space s"
  by (induction s) (auto split: if_splits)

lemma strip_trailing_last:
  "strip_trailing s \<noteq> [] \<Longrightarrow> \<not> is_space (last (strip_trailing s))"
proof (induction s)
  case Nil
  then show ?case by simp
next
  case (Cons c cs)
  from Cons.prems have keep: "\<not> (is_space c \<and> list_all is_space cs)"
    by (auto split: if_splits)
  then have eq: "strip_trailing (c # cs) = c # strip_trailing cs"
    by simp
  show ?case
  proof (cases "strip_trailing cs = []")
    case True
    then have "list_all is_space cs" by (rule strip_trailing_Nil)
    with keep have "\<not> is_space c" by simp
    with True eq show ?thesis by simp
  next
    case False
    with Cons.IH eq show ?thesis by simp
  qed
qed

lemma preprocess_no_outer_space: "no_outer_space (preprocess text)"
proof (cases "preprocess text = []")
  case True
  then show ?thesis by (simp add: no_outer_space_def)
next
  case False
  have "clean_head (preprocess text)"
    by (rule preprocess_clean_head)
  with False have "\<not> is_space (hd (preprocess text))"
    by (simp add: clean_head_def)
  moreover have "\<not> is_space (last (preprocess text))"
    using False unfolding preprocess_def by (rule strip_trailing_last)
  ultimately show ?thesis by (simp add: no_outer_space_def)
qed

subsection \<open>Neighbouring characters\<close>

lemma has_pair_Cons: "has_pair R (c # t) = ((t \<noteq> [] \<and> R c (hd t)) \<or> has_pair R t)"
  by (cases t) simp_all

lemma has_pair_prefix: "prefix p s \<Longrightarrow> has_pair R p \<Longrightarrow> has_pair R s"
proof (induction p arbitrary: s)
  case Nil
  then show ?case by simp
next
  case (Cons c p)
  from Cons.prems(1) obtain s' where s: "s = c # s'" and p: "prefix p s'"
    by (cases s) auto
  from Cons.prems(2) consider "p \<noteq> []" "R c (hd p)" | "has_pair R p"
    by (auto simp: has_pair_Cons)
  then show ?case
  proof cases
    case 1
    with p have "s' \<noteq> []" "hd s' = hd p"
      by (auto simp: prefix_def)
    with 1 s show ?thesis by (simp add: has_pair_Cons)
  next
    case 2
    with Cons.IH p have "has_pair R s'" by blast
    with s show ?thesis by (simp add: has_pair_Cons)
  qed
qed

lemma has_pair_mono:
  assumes "has_pair R s" and "\<And>c d. R c d \<Longrightarrow> R' c d"
  shows "has_pair R' s"
  using assms(1)
proof (induction s)
  case Nil
  then show ?case by simp
next
  case (Cons c s)
  then show ?case using assms(2) by (auto simp: has_pair_Cons)
qed

lemma strip_trailing_prefix: "prefix (strip_trailing s) s"
  by (induction s) simp_all

lemma collapse_spaces_no_double_blank:
  "\<not> has_pair (\<lambda>c d. c = CHR '' '' \<and> d = CHR '' '') (collapse_spaces s)"
proof (induction s rule: collapse_spaces.induct)
  case 1
  show ?case by simp
next
  case (2 c cs)
  show ?case
  proof (cases "is_space c")
    case True
    let ?t = "collapse_spaces (dropWhile is_space cs)"
    have "clean_head ?t"
      by (intro clean_head_collapse_spaces clean_head_dropWhile)
    then have "?t = [] \<or> hd ?t \<noteq> CHR '' ''"
      by (auto simp: clean_head_def is_space_def)
    with 2(1) [OF True] True show ?thesis
      by (auto simp: has_pair_Cons)
  next
    case False
    then have "c \<noteq> CHR '' ''" by (auto simp: is_space_def)
    with 2(2) [OF False] False show ?thesis
      by (simp add: has_pair_Cons)
  qed
qed

subsection \<open>Terminators and the space behind them\<close>

lemma dots_spaced_suffix: "suffix t s \<Longrightarrow> dots_spaced s \<Longrightarrow> dots_spaced t"
proof (induction s)
  case Nil
  then show ?case by simp
next
  case (Cons c s)
  from Cons.prems(1) consider "t = c # s" | "suffix t s"
    by (auto simp: suffix_Cons)
  then show ?case
  proof cases
    case 1
    with Cons.prems(2) show ?thesis by simp
  next
    case 2
    with Cons show ?thesis by simp
  qed
qed

lemma dots_spaced_pad_terminators: "dots_spaced (pad_terminators s)"
proof (induction s rule: pad_terminators.induct)
  case 1
  show ?case by simp
next
  case (2 c cs)
  show ?case
  proof (cases "dropWhile is_blank (c # cs)")
    case Nil
    then have "is_blank c"
      by (simp split: if_splits)
    then have c: "c \<noteq> CHR ''.''" by (auto simp: is_blank_def)
    have "pad_terminators (c # cs) = c # pad_terminators cs"
      unfolding pad_terminators.simps Nil by simp
    with c 2(1) [OF Nil] show ?thesis by simp
  next
    case (Cons d rest)
    show ?thesis
    proof (cases "d = CHR ''.''")
      case True
      have "pad_terminators (c # cs) = ''. '' @ pad_terminators rest"
        unfolding pad_terminators.simps Cons using True by simp
      with 2(2) [OF Cons True] show ?thesis by simp
    next
      case False
      have "is_blank c \<or> c = d"
        using Cons by (rule dropWhile_Cons_head)
      with False have c: "c \<noteq> CHR ''.''" by (auto simp: is_blank_def)
      have "pad_terminators (c # cs) = c # pad_terminators cs"
        unfolding pad_terminators.simps Cons using False by simp
      with c 2(3) [OF Cons False] show ?thesis by simp
    qed
  qed
qed

lemma dots_spaced_collapse_spaces: "dots_spaced s \<Longrightarrow> dots_spaced (collapse_spaces s)"
proof (induction s rule: collapse_spaces.induct)
  case 1
  show ?case by simp
next
  case (2 c cs)
  from 2(3) have cs: "dots_spaced cs" by simp
  show ?case
  proof (cases "is_space c")
    case True
    have "dots_spaced (dropWhile is_space cs)"
      using suffix_dropWhile cs by (rule dots_spaced_suffix)
    with 2(1) [OF True] True show ?thesis by simp
  next
    case False
    have ih: "dots_spaced (collapse_spaces cs)"
      using 2(2) [OF False] cs .
    show ?thesis
    proof (cases "c = CHR ''.''")
      case ne: False
      with False ih show ?thesis by simp
    next
      case True
      with 2(3) obtain ds where "cs = CHR '' '' # ds"
        by (cases cs) auto
      then have "collapse_spaces cs = CHR '' '' # collapse_spaces (dropWhile is_space ds)"
        by (simp add: is_space_def)
      with False ih show ?thesis by simp
    qed
  qed
qed

lemma dots_spaced_no_pair:
  "dots_spaced s \<Longrightarrow> \<not> has_pair (\<lambda>c d. c = CHR ''.'' \<and> d \<noteq> CHR '' '') s"
  by (induction s) (auto simp: has_pair_Cons)

lemma preprocess_no_double_blank:
  "\<not> has_pair (\<lambda>c d. c = CHR '' '' \<and> d = CHR '' '') (preprocess text)"
  unfolding preprocess_def
  using has_pair_prefix [OF strip_trailing_prefix] collapse_spaces_no_double_blank by blast

lemma preprocess_dots_padded:
  "\<not> has_pair (\<lambda>c d. c = CHR ''.'' \<and> d \<noteq> CHR '' '') (preprocess text)"
proof -
  let ?p = "pad_terminators (dedupe_terminators (sub_newlines (strip_leading
      (unify_terminators (sub_punct (strip_html (sub_full_stop_tags text)))))))"
  have "dots_spaced ?p"
    by (rule dots_spaced_pad_terminators)
  then have "dots_spaced (collapse_spaces ?p)"
    by (rule dots_spaced_collapse_spaces)
  then have "\<not> has_pair (\<lambda>c d. c = CHR ''.'' \<and> d \<noteq> CHR '' '') (collapse_spaces ?p)"
    by (rule dots_spaced_no_pair)
  then show ?thesis
    unfolding preprocess_def using has_pair_prefix [OF strip_trailing_prefix] by blast
qed

lemma preprocess_no_double_dot:
  "\<not> has_pair (\<lambda>c d. c = CHR ''.'' \<and> d = CHR ''.'') (preprocess text)"
proof
  assume "has_pair (\<lambda>c d. c = CHR ''.'' \<and> d = CHR ''.'') (preprocess text)"
  then have "has_pair (\<lambda>c d. c = CHR ''.'' \<and> d \<noteq> CHR '' '') (preprocess text)"
    by (rule has_pair_mono) simp
  with preprocess_dots_padded show False by blast
qed

subsection \<open>The canonical text\<close>

text \<open>
  Claim C8, amended. For every input, the output of the preprocessor has no whitespace
  other than single spaces, none of them at the start or the end, and none of the
  characters \<^verbatim>\<open>, : ; ( ) - ! ?\<close>; every \<^verbatim>\<open>.\<close> is the last character or is followed by
  a space, no two \<^verbatim>\<open>.\<close> are adjacent, and no part of the output matches the tag
  pattern. Characters that are not ASCII letters, such as digits or \<^verbatim>\<open>%\<close>, can remain.
\<close>

theorem preprocess_canonical: "canonical_text (preprocess text)"
  unfolding canonical_text_def
  using preprocess_kept preprocess_no_double_blank preprocess_dots_padded
    preprocess_no_double_dot preprocess_no_outer_space preprocess_no_tag
  by blast

theorem preprocess_canonical_witness:
  "preprocess ''Hi,  there!<br> 3 < 4.'' = ''Hi there. 3 < 4.''
   \<and> canonical_text ''Hi there. 3 < 4.''"
proof -
  have p: "preprocess ''Hi,  there!<br> 3 < 4.'' = ''Hi there. 3 < 4.''"
    by code_simp
  from preprocess_canonical [of "''Hi,  there!<br> 3 < 4.''"] show ?thesis
    unfolding p by (simp add: p)
qed

text \<open>
  Claim C8, as the specification states it, asks for a canonical text of ASCII letters
  only. The preprocessor keeps \<^verbatim>\<open>%\<close> (and digits), so the statement is false.
\<close>

theorem canonical_only_letters_counterexample:
  "preprocess ''50% off.'' = ''50% off.'' \<and> \<not> spec_canonical (preprocess ''50% off.'')"
  by code_simp

subsection \<open>Preprocessing twice\<close>

lemma set_sub_literal: "set (sub_literal pat rep s) \<subseteq> set rep \<union> set s"
proof (induction pat rep s rule: sub_literal.induct)
  case (1 pat rep)
  show ?case by simp
next
  case (2 pat rep c cs)
  show ?case
  proof (cases "pat \<noteq> [] \<and> prefix pat (c # cs)")
    case True
    have "set (drop (length pat) (c # cs)) \<subseteq> set (c # cs)"
      by (rule set_drop_subset)
    with 2(1) [OF True] True show ?thesis by auto
  next
    case False
    with 2(2) [OF False] show ?thesis by auto
  qed
qed

lemma set_sub_full_stop_tags: "set (sub_full_stop_tags s) \<subseteq> insert (CHR ''.'') (set s)"
proof -
  have "set (foldl (\<lambda>t tag. sub_literal (''</'' @ tag @ ''>'') ''.'' t) s tags)
      \<subseteq> insert (CHR ''.'') (set s)" for tags
  proof (induction tags arbitrary: s)
    case Nil
    show ?case by auto
  next
    case (Cons tag tags)
    have "set (sub_literal (''</'' @ tag @ ''>'') ''.'' s) \<subseteq> insert (CHR ''.'') (set s)"
      using set_sub_literal [of "''</'' @ tag @ ''>''" "''.''" s] by simp
    with Cons [of "sub_literal (''</'' @ tag @ ''>'') ''.'' s"] show ?case
      by auto
  qed
  then show ?thesis by (simp add: sub_full_stop_tags_def)
qed

lemma no_tabs_subset:
  assumes "no_tabs s" and "set t \<subseteq> insert (CHR ''.'') (insert (CHR '' '') (set s))"
  shows "no_tabs t"
proof -
  have "c \<noteq> CHR 0x09 \<and> c \<noteq> CHR 0x0B \<and> c \<noteq> CHR 0x0C" if "c \<in> set t" for c
  proof -
    from that assms(2) consider "c = CHR ''.''" | "c = CHR '' ''" | "c \<in> set s"
      by blast
    then show ?thesis
    proof cases
      case 3
      with assms(1) show ?thesis by (simp add: no_tabs_def list_all_iff)
    qed simp_all
  qed
  then show ?thesis by (simp add: no_tabs_def list_all_iff)
qed

lemma set_sub_punct: "set (sub_punct s) \<subseteq> insert (CHR '' '') (set s)"
  by (auto simp: sub_punct_def)

lemma set_unify_terminators: "set (unify_terminators s) \<subseteq> insert (CHR ''.'') (set s)"
  by (auto simp: unify_terminators_def)

lemma local_rewrite_subset:
  assumes "local_rewrite f"
  shows "set (f s) \<subseteq> insert (CHR ''.'') (insert (CHR '' '') (set s))"
proof
  fix x
  assume "x \<in> set (f s)"
  then have "is_dot_or_blank x \<or> x \<in> set s"
    by (rule local_rewrite_chars [OF assms])
  then show "x \<in> insert (CHR ''.'') (insert (CHR '' '') (set s))"
    by (auto simp: is_dot_or_blank_def)
qed

lemma no_tabs_local_rewrite: "local_rewrite f \<Longrightarrow> no_tabs s \<Longrightarrow> no_tabs (f s)"
  using no_tabs_subset local_rewrite_subset by blast

lemma no_tabs_sub_full_stop_tags: "no_tabs s \<Longrightarrow> no_tabs (sub_full_stop_tags s)"
  using no_tabs_subset [of s "sub_full_stop_tags s"] set_sub_full_stop_tags [of s] by blast

lemma no_tabs_strip_html: "no_tabs s \<Longrightarrow> no_tabs (strip_html s)"
  using no_tabs_subset [of s "strip_html s"] set_strip_html [of s] by blast

lemma no_tabs_strip_leading: "no_tabs s \<Longrightarrow> no_tabs (strip_leading s)"
  using no_tabs_subset [of s "strip_leading s"] set_dropWhile_subset [of is_space s]
  unfolding strip_leading_def by blast

lemma sub_newlines_no_newline:
  "x \<in> set (sub_newlines s) \<Longrightarrow> x \<noteq> CHR 0x0A \<and> x \<noteq> CHR 0x0D"
proof (induction s rule: sub_newlines.induct)
  case 1
  then show ?case by simp
next
  case (2 c cs)
  show ?case
  proof (cases "match_newline (dropWhile is_blank (c # cs))")
    case (Some rest)
    with 2(3) have "x = CHR '' '' \<or> x \<in> set (sub_newlines (dropWhile is_blank rest))"
      by simp
    with 2(2) [OF Some] show ?thesis by auto
  next
    case None
    have c: "c \<noteq> CHR 0x0A \<and> c \<noteq> CHR 0x0D"
    proof (cases "is_blank c")
      case True
      then show ?thesis by (simp add: is_blank_def)
    next
      case False
      then have "dropWhile is_blank (c # cs) = c # cs" by simp
      with None have "match_newline (c # cs) = None" by simp
      then show ?thesis by (auto split: if_splits list.splits)
    qed
    from None 2(3) have "x = c \<or> x \<in> set (sub_newlines cs)"
      by simp
    with c 2(1) [OF None] show ?thesis by auto
  qed
qed

lemma only_blanks_sub_newlines:
  assumes "no_tabs s"
  shows "only_blanks (sub_newlines s)"
proof -
  have nt: "no_tabs (sub_newlines s)"
    using local_rewrite_sub_newlines assms by (rule no_tabs_local_rewrite)
  have "c = CHR '' '' \<or> \<not> is_space c" if "c \<in> set (sub_newlines s)" for c
  proof -
    from that have "c \<noteq> CHR 0x0A \<and> c \<noteq> CHR 0x0D"
      by (rule sub_newlines_no_newline)
    moreover from that nt have "c \<noteq> CHR 0x09 \<and> c \<noteq> CHR 0x0B \<and> c \<noteq> CHR 0x0C"
      by (simp add: no_tabs_def list_all_iff)
    ultimately show ?thesis by (simp add: is_space_def)
  qed
  then show ?thesis by (simp add: only_blanks_def list_all_iff)
qed

lemma only_blanks_local_rewrite:
  assumes f: "local_rewrite f" and s: "only_blanks s"
  shows "only_blanks (f s)"
proof -
  have "c = CHR '' '' \<or> \<not> is_space c" if "c \<in> set (f s)" for c
  proof -
    from that have "is_dot_or_blank c \<or> c \<in> set s"
      by (rule local_rewrite_chars [OF f])
    then show ?thesis
    proof
      assume "is_dot_or_blank c"
      then show ?thesis by (auto simp: is_dot_or_blank_def is_space_def)
    next
      assume "c \<in> set s"
      with s show ?thesis by (simp add: only_blanks_def list_all_iff)
    qed
  qed
  then show ?thesis by (simp add: only_blanks_def list_all_iff)
qed

lemma has_pair_suffix: "suffix t s \<Longrightarrow> has_pair R t \<Longrightarrow> has_pair R s"
proof (induction s)
  case Nil
  then show ?case by simp
next
  case (Cons c s)
  from Cons.prems(1) consider "t = c # s" | "suffix t s"
    by (auto simp: suffix_Cons)
  then show ?case
  proof cases
    case 1
    with Cons.prems(2) show ?thesis by simp
  next
    case 2
    with Cons have "has_pair R s" by blast
    then show ?thesis by (simp add: has_pair_Cons)
  qed
qed

lemma dedupe_terminators_hd:
  "s \<noteq> [] \<Longrightarrow> dedupe_terminators s \<noteq> [] \<and> hd (dedupe_terminators s) = hd s"
  by (cases s) simp_all

lemma dedupe_terminators_Nil: "dedupe_terminators s = [] \<longleftrightarrow> s = []"
  by (cases s) simp_all

text \<open>After the duplicates are gone, no terminator has a terminator or a space behind it.\<close>

lemma dedupe_terminators_single:
  "\<not> has_pair (\<lambda>c d. c = CHR ''.'' \<and> is_dot_or_blank d) (dedupe_terminators s)"
proof (induction s rule: dedupe_terminators.induct)
  case 1
  show ?case by simp
next
  case (2 c cs)
  show ?case
  proof (cases "c = CHR ''.'' \<and> takeWhile is_dot_or_blank cs \<noteq> []")
    case True
    let ?r = "dropWhile is_dot_or_blank cs"
    have "dedupe_terminators ?r = [] \<or> \<not> is_dot_or_blank (hd (dedupe_terminators ?r))"
    proof (cases "?r = []")
      case True
      have "dedupe_terminators ?r = []"
        unfolding True by simp
      then show ?thesis by blast
    next
      case False
      then have "\<not> is_dot_or_blank (hd ?r)"
        by (rule hd_dropWhile)
      moreover from False have "hd (dedupe_terminators ?r) = hd ?r"
        using dedupe_terminators_hd by blast
      ultimately show ?thesis by simp
    qed
    with 2(1) [OF True] True show ?thesis
      by (auto simp: has_pair_Cons)
  next
    case False
    have "dedupe_terminators cs = [] \<or> c \<noteq> CHR ''.''
        \<or> \<not> is_dot_or_blank (hd (dedupe_terminators cs))"
    proof (cases "c = CHR ''.'' \<and> cs \<noteq> []")
      case True
      with False have "takeWhile is_dot_or_blank cs = []" by blast
      with True have "\<not> is_dot_or_blank (hd cs)"
        by (cases cs) (auto split: if_splits)
      with True show ?thesis using dedupe_terminators_hd [of cs] by simp
    next
      case False
      then show ?thesis by (auto simp: dedupe_terminators_Nil)
    qed
    with 2(2) [OF False] False show ?thesis
      by (auto simp: has_pair_Cons)
  qed
qed

lemma pad_terminators_dot_head:
  assumes "pad_terminators s = CHR ''.'' # t"
  shows "\<exists>r. dropWhile is_blank s = CHR ''.'' # r"
proof (cases s)
  case Nil
  with assms show ?thesis by simp
next
  case (Cons c cs)
  show ?thesis
  proof (cases "dropWhile is_blank (c # cs)")
    case Nil
    then have "is_blank c" by (simp split: if_splits)
    moreover have "pad_terminators (c # cs) = c # pad_terminators cs"
      unfolding pad_terminators.simps Nil by simp
    ultimately show ?thesis using assms Cons by (simp add: is_blank_def)
  next
    case dw: (Cons d rest)
    show ?thesis
    proof (cases "d = CHR ''.''")
      case True
      with dw Cons show ?thesis by simp
    next
      case False
      have "pad_terminators (c # cs) = c # pad_terminators cs"
        unfolding pad_terminators.simps dw using False by simp
      with assms Cons have c: "c = CHR ''.''" by simp
      then have "dropWhile is_blank (c # cs) = c # cs" by (simp add: is_blank_def)
      with dw c False show ?thesis by simp
    qed
  qed
qed

text \<open>The padding step leaves no space in front of a terminator.\<close>

lemma pad_terminators_no_blank_dot:
  assumes "\<not> has_pair (\<lambda>c d. c = CHR ''.'' \<and> is_dot_or_blank d) s"
  shows "\<not> has_pair (\<lambda>c d. c = CHR '' '' \<and> d = CHR ''.'') (pad_terminators s)"
  using assms
proof (induction s rule: pad_terminators.induct)
  case 1
  show ?case by simp
next
  case (2 c cs)
  from 2(4) have cs: "\<not> has_pair (\<lambda>c d. c = CHR ''.'' \<and> is_dot_or_blank d) cs"
    by (simp add: has_pair_Cons)
  have keep: "\<not> has_pair (\<lambda>c d. c = CHR '' '' \<and> d = CHR ''.'') (c # pad_terminators cs)"
    if ih: "\<not> has_pair (\<lambda>c d. c = CHR '' '' \<and> d = CHR ''.'') (pad_terminators cs)"
    and nm: "\<And>r. dropWhile is_blank (c # cs) \<noteq> CHR ''.'' # r"
  proof -
    have "\<not> (c = CHR '' '' \<and> pad_terminators cs \<noteq> [] \<and> hd (pad_terminators cs) = CHR ''.'')"
    proof
      assume a: "c = CHR '' '' \<and> pad_terminators cs \<noteq> [] \<and> hd (pad_terminators cs) = CHR ''.''"
      then obtain t where "pad_terminators cs = CHR ''.'' # t"
        by (cases "pad_terminators cs") auto
      then obtain r where "dropWhile is_blank cs = CHR ''.'' # r"
        using pad_terminators_dot_head by blast
      with a have "dropWhile is_blank (c # cs) = CHR ''.'' # r"
        by (simp add: is_blank_def)
      with nm show False by blast
    qed
    with ih show ?thesis by (auto simp: has_pair_Cons)
  qed
  show ?case
  proof (cases "dropWhile is_blank (c # cs)")
    case Nil
    have "pad_terminators (c # cs) = c # pad_terminators cs"
      unfolding pad_terminators.simps Nil by simp
    moreover have "\<not> has_pair (\<lambda>c d. c = CHR '' '' \<and> d = CHR ''.'') (c # pad_terminators cs)"
      using 2(1) [OF Nil cs] Nil by (intro keep) simp_all
    ultimately show ?thesis by simp
  next
    case (Cons d rest)
    show ?thesis
    proof (cases "d = CHR ''.''")
      case False
      have "pad_terminators (c # cs) = c # pad_terminators cs"
        unfolding pad_terminators.simps Cons using False by simp
      moreover have "\<not> has_pair (\<lambda>c d. c = CHR '' '' \<and> d = CHR ''.'') (c # pad_terminators cs)"
        using 2(3) [OF Cons False cs] Cons False by (intro keep) simp_all
      ultimately show ?thesis by simp
    next
      case True
      have eq: "pad_terminators (c # cs) = ''. '' @ pad_terminators rest"
        unfolding pad_terminators.simps Cons using True by simp
      have suf: "suffix (d # rest) (c # cs)"
        using suffix_dropWhile [of is_blank "c # cs"] Cons by simp
      then have dr: "\<not> has_pair (\<lambda>c d. c = CHR ''.'' \<and> is_dot_or_blank d) (d # rest)"
        using 2(4) has_pair_suffix by blast
      then have rest: "\<not> has_pair (\<lambda>c d. c = CHR ''.'' \<and> is_dot_or_blank d) rest"
        by (simp add: has_pair_Cons)
      have ih: "\<not> has_pair (\<lambda>c d. c = CHR '' '' \<and> d = CHR ''.'') (pad_terminators rest)"
        using 2(2) [OF Cons True rest] .
      have "\<not> (pad_terminators rest \<noteq> [] \<and> hd (pad_terminators rest) = CHR ''.'')"
      proof
        assume a: "pad_terminators rest \<noteq> [] \<and> hd (pad_terminators rest) = CHR ''.''"
        then obtain t where "pad_terminators rest = CHR ''.'' # t"
          by (cases "pad_terminators rest") auto
        then obtain r where r: "dropWhile is_blank rest = CHR ''.'' # r"
          using pad_terminators_dot_head by blast
        then have "rest \<noteq> []" by auto
        moreover have "is_dot_or_blank (hd rest)"
        proof (cases rest)
          case Nil
          with \<open>rest \<noteq> []\<close> show ?thesis by simp
        next
          case (Cons e es)
          with r show ?thesis
            by (cases "is_blank e") (auto simp: is_dot_or_blank_def is_blank_def)
        qed
        ultimately show False using dr True by (simp add: has_pair_Cons)
      qed
      with ih eq show ?thesis by (auto simp: has_pair_Cons)
    qed
  qed
qed

lemma only_blanks_Cons: "only_blanks (c # cs) = ((c = CHR '' '' \<or> \<not> is_space c) \<and> only_blanks cs)"
  by (simp add: only_blanks_def)

lemma only_blanks_dropWhile:
  "only_blanks s \<Longrightarrow> dropWhile is_space s = dropWhile is_blank s"
proof (induction s)
  case Nil
  show ?case by simp
next
  case (Cons c s)
  from Cons.prems have "is_space c = is_blank c"
    by (auto simp: only_blanks_Cons is_blank_def is_space_def)
  with Cons show ?case by (simp add: only_blanks_Cons)
qed

lemma blank_run_then_dot:
  "is_blank c \<Longrightarrow> dropWhile is_blank cs = CHR ''.'' # r
     \<Longrightarrow> has_pair (\<lambda>c d. c = CHR '' '' \<and> d = CHR ''.'') (c # cs)"
proof (induction cs arbitrary: c)
  case Nil
  then show ?case by simp
next
  case (Cons d ds)
  show ?case
  proof (cases "is_blank d")
    case True
    with Cons.prems(2) have "dropWhile is_blank ds = CHR ''.'' # r" by simp
    with Cons.IH True have "has_pair (\<lambda>c d. c = CHR '' '' \<and> d = CHR ''.'') (d # ds)"
      by blast
    then show ?thesis by simp
  next
    case False
    with Cons.prems(2) have "d = CHR ''.''" by simp
    with Cons.prems(1) show ?thesis by (simp add: is_blank_def)
  qed
qed

lemma collapse_spaces_hd:
  "clean_head s \<Longrightarrow> s \<noteq> [] \<Longrightarrow> collapse_spaces s \<noteq> [] \<and> hd (collapse_spaces s) = hd s"
  by (cases s) (simp_all add: clean_head_def)

lemma collapse_spaces_no_blank_dot:
  assumes "only_blanks s" and "\<not> has_pair (\<lambda>c d. c = CHR '' '' \<and> d = CHR ''.'') s"
  shows "\<not> has_pair (\<lambda>c d. c = CHR '' '' \<and> d = CHR ''.'') (collapse_spaces s)"
  using assms
proof (induction s rule: collapse_spaces.induct)
  case 1
  show ?case by simp
next
  case (2 c cs)
  from 2(3) have ob: "only_blanks cs" by (simp add: only_blanks_Cons)
  from 2(4) have np: "\<not> has_pair (\<lambda>c d. c = CHR '' '' \<and> d = CHR ''.'') cs"
    by (simp add: has_pair_Cons)
  show ?case
  proof (cases "is_space c")
    case True
    let ?r = "dropWhile is_space cs"
    have r: "?r = dropWhile is_blank cs"
      using ob by (rule only_blanks_dropWhile)
    from True 2(3) have c: "is_blank c"
      by (simp add: only_blanks_Cons is_blank_def)
    have suf: "suffix ?r cs" by (rule suffix_dropWhile)
    have "only_blanks ?r"
      using ob set_mono_suffix [OF suf] by (auto simp: only_blanks_def list_all_iff)
    moreover have "\<not> has_pair (\<lambda>c d. c = CHR '' '' \<and> d = CHR ''.'') ?r"
      using np suf has_pair_suffix by blast
    ultimately have ih: "\<not> has_pair (\<lambda>c d. c = CHR '' '' \<and> d = CHR ''.'')
        (collapse_spaces ?r)"
      using 2(1) [OF True] by blast
    have "\<not> (collapse_spaces ?r \<noteq> [] \<and> hd (collapse_spaces ?r) = CHR ''.'')"
    proof
      assume a: "collapse_spaces ?r \<noteq> [] \<and> hd (collapse_spaces ?r) = CHR ''.''"
      have ne: "?r \<noteq> []"
      proof
        assume "?r = []"
        then have "collapse_spaces ?r = []" by (simp only: collapse_spaces.simps)
        with a show False by blast
      qed
      have "clean_head ?r" by (rule clean_head_dropWhile)
      with ne a have "hd ?r = CHR ''.''"
        using collapse_spaces_hd [of ?r] by simp
      with ne obtain t where "?r = CHR ''.'' # t"
        by (cases ?r) auto
      with r have "dropWhile is_blank cs = CHR ''.'' # t" by simp
      with c have "has_pair (\<lambda>c d. c = CHR '' '' \<and> d = CHR ''.'') (c # cs)"
        by (rule blank_run_then_dot)
      with 2(4) show False by blast
    qed
    with ih True show ?thesis by (auto simp: has_pair_Cons)
  next
    case False
    then have "c \<noteq> CHR '' ''" by (auto simp: is_space_def)
    with 2(2) [OF False ob np] False show ?thesis
      by (simp add: has_pair_Cons)
  qed
qed

lemma preprocess_no_blank_dot:
  assumes "no_tabs text"
  shows "\<not> has_pair (\<lambda>c d. c = CHR '' '' \<and> d = CHR ''.'') (preprocess text)"
proof -
  let ?a = "strip_leading (unify_terminators (sub_punct (strip_html
      (sub_full_stop_tags text))))"
  let ?d = "dedupe_terminators (sub_newlines ?a)"
  have "no_tabs (sub_full_stop_tags text)"
    using assms by (rule no_tabs_sub_full_stop_tags)
  then have "no_tabs (strip_html (sub_full_stop_tags text))"
    by (rule no_tabs_strip_html)
  then have "no_tabs (sub_punct (strip_html (sub_full_stop_tags text)))"
    by (rule no_tabs_local_rewrite [OF local_rewrite_sub_punct])
  then have "no_tabs (unify_terminators (sub_punct (strip_html (sub_full_stop_tags text))))"
    by (rule no_tabs_local_rewrite [OF local_rewrite_unify_terminators])
  then have "no_tabs ?a"
    by (rule no_tabs_strip_leading)
  then have "only_blanks (sub_newlines ?a)"
    by (rule only_blanks_sub_newlines)
  then have "only_blanks ?d"
    by (rule only_blanks_local_rewrite [OF local_rewrite_dedupe_terminators])
  then have ob: "only_blanks (pad_terminators ?d)"
    by (rule only_blanks_local_rewrite [OF local_rewrite_pad_terminators])
  have "\<not> has_pair (\<lambda>c d. c = CHR ''.'' \<and> is_dot_or_blank d) ?d"
    by (rule dedupe_terminators_single)
  then have "\<not> has_pair (\<lambda>c d. c = CHR '' '' \<and> d = CHR ''.'') (pad_terminators ?d)"
    by (rule pad_terminators_no_blank_dot)
  with ob have "\<not> has_pair (\<lambda>c d. c = CHR '' '' \<and> d = CHR ''.'')
      (collapse_spaces (pad_terminators ?d))"
    by (rule collapse_spaces_no_blank_dot)
  then show ?thesis
    unfolding preprocess_def using has_pair_prefix [OF strip_trailing_prefix] by blast
qed

lemma closing_tag_is_tag:
  assumes "prefix (''</'' @ tag @ ''>'') (c # cs)"
  shows "tag_at (c # cs)"
proof -
  from assms obtain r where "c # cs = ''</'' @ tag @ ''>'' @ r"
    by (auto simp: prefix_def)
  then have "c = CHR ''<''" and "cs = CHR ''/'' # tag @ ''>'' @ r"
    by simp_all
  then show ?thesis by (simp add: tag_at_Cons)
qed

lemma sub_literal_no_tag:
  "\<not> has_tag t \<Longrightarrow> sub_literal (''</'' @ tag @ ''>'') ''.'' t = t"
proof (induction t)
  case Nil
  show ?case by simp
next
  case (Cons c cs)
  from Cons.prems have nt: "\<not> tag_at (c # cs)" and ncs: "\<not> has_tag cs"
    by simp_all
  from nt have "\<not> prefix (''</'' @ tag @ ''>'') (c # cs)"
    using closing_tag_is_tag by blast
  then have "sub_literal (''</'' @ tag @ ''>'') ''.'' (c # cs)
      = c # sub_literal (''</'' @ tag @ ''>'') ''.'' cs"
    by (simp only: sub_literal.simps if_False simp_thms)
  with Cons.IH ncs show ?case by simp
qed

lemma sub_full_stop_tags_no_tag:
  assumes "\<not> has_tag t"
  shows "sub_full_stop_tags t = t"
proof -
  have "foldl (\<lambda>t tag. sub_literal (''</'' @ tag @ ''>'') ''.'' t) t tags = t" for tags
  proof (induction tags)
    case Nil
    show ?case by simp
  next
    case (Cons tag tags)
    have "sub_literal (''</'' @ tag @ ''>'') ''.'' t = t"
      using assms by (rule sub_literal_no_tag)
    with Cons show ?case by simp
  qed
  then show ?thesis by (simp add: sub_full_stop_tags_def)
qed

lemma strip_html_no_tag_id: "\<not> has_tag t \<Longrightarrow> strip_html t = t"
proof (induction t)
  case Nil
  show ?case by simp
next
  case (Cons c cs)
  from Cons.prems have nt: "\<not> tag_at (c # cs)" and ncs: "\<not> has_tag cs"
    by simp_all
  from nt have "strip_html (c # cs) = c # strip_html cs"
    by (rule strip_html_keep)
  with Cons.IH ncs show ?case by simp
qed

lemma sub_punct_plain: "\<forall>x\<in>set t. plain_char x \<Longrightarrow> sub_punct t = t"
  unfolding sub_punct_def by (induction t) (simp_all add: plain_char_def)

lemma unify_terminators_plain: "\<forall>x\<in>set t. plain_char x \<Longrightarrow> unify_terminators t = t"
  unfolding unify_terminators_def
  by (induction t) (auto simp: plain_char_def is_terminator_def)

lemma strip_leading_clean_head: "clean_head t \<Longrightarrow> strip_leading t = t"
  by (cases t) (simp_all add: clean_head_def strip_leading_def)

lemma sub_newlines_only_blanks: "only_blanks t \<Longrightarrow> sub_newlines t = t"
proof (induction t)
  case Nil
  show ?case by simp
next
  case (Cons c cs)
  have "match_newline (dropWhile is_blank (c # cs)) = None"
  proof (cases "dropWhile is_blank (c # cs)")
    case Nil
    then show ?thesis by (simp only: match_newline.simps)
  next
    case dw: (Cons d r)
    have "d \<in> set (c # cs)"
      using set_dropWhile_subset [of is_blank "c # cs"] dw by auto
    with Cons.prems have "d = CHR '' '' \<or> \<not> is_space d"
      unfolding only_blanks_def list_all_iff by blast
    moreover have "\<not> is_blank d"
      using hd_dropWhile [of is_blank "c # cs"] dw by simp
    ultimately have "\<not> is_space d" by (auto simp: is_blank_def)
    show ?thesis
    proof (cases "match_newline (d # r)")
      case None
      with dw show ?thesis by simp
    next
      case (Some rest)
      then have "is_space d" by (rule match_newline_space)
      with \<open>\<not> is_space d\<close> show ?thesis by blast
    qed
  qed
  then have "sub_newlines (c # cs) = c # sub_newlines cs"
    by (simp only: sub_newlines.simps option.case)
  moreover from Cons.prems have "only_blanks cs"
    by (simp add: only_blanks_Cons)
  ultimately show ?case using Cons.IH by simp
qed

lemma pad_terminators_dot: "pad_terminators (CHR ''.'' # s) = ''. '' @ pad_terminators s"
proof -
  have "dropWhile is_blank (CHR ''.'' # s) = CHR ''.'' # s"
    by (simp add: is_blank_def)
  then show ?thesis
    unfolding pad_terminators.simps by simp
qed

lemma pad_terminators_other:
  assumes "\<not> is_blank c" and "c \<noteq> CHR ''.''"
  shows "pad_terminators (c # s) = c # pad_terminators s"
proof -
  have "dropWhile is_blank (c # s) = c # s"
    using assms(1) by simp
  then show ?thesis
    unfolding pad_terminators.simps using assms(2) by simp
qed

lemma pad_terminators_blank:
  assumes "is_blank c" and "s = [] \<or> (\<not> is_blank (hd s) \<and> hd s \<noteq> CHR ''.'')"
  shows "pad_terminators (c # s) = c # pad_terminators s"
proof (cases s)
  case Nil
  have "dropWhile is_blank [c] = []"
    using assms(1) by simp
  then show ?thesis
    unfolding Nil pad_terminators.simps by simp
next
  case (Cons y ys)
  with assms(2) have y: "\<not> is_blank y" "y \<noteq> CHR ''.''" by simp_all
  have "dropWhile is_blank (c # y # ys) = y # ys"
    using assms(1) y(1) by simp
  then show ?thesis
    unfolding Cons pad_terminators.simps using y(2) by simp
qed

lemma dedupe_terminators_other:
  "c \<noteq> CHR ''.'' \<Longrightarrow> dedupe_terminators (c # s) = c # dedupe_terminators s"
  by simp

lemma dedupe_terminators_dot_blank:
  assumes "s = [] \<or> \<not> is_dot_or_blank (hd s)"
  shows "dedupe_terminators (CHR ''.'' # CHR '' '' # s) = CHR ''.'' # dedupe_terminators s"
proof -
  have "dropWhile is_dot_or_blank s = s"
    using assms by (cases s) auto
  then show ?thesis by (simp add: is_dot_or_blank_def)
qed

lemma tailfix_Cons: "s \<noteq> [] \<Longrightarrow> tailfix (c # s) = tailfix s"
  by (simp add: tailfix_def)

text \<open>
  On a text with single spaces, no space in front of a terminator and a space behind
  every terminator that does not end the text, removing the duplicates and padding again
  only adds the space behind a final terminator.
\<close>

lemma pad_dedupe_canonical:
  assumes "\<not> has_pair (\<lambda>c d. c = CHR '' '' \<and> d = CHR '' '') t"
    and "\<not> has_pair (\<lambda>c d. c = CHR '' '' \<and> d = CHR ''.'') t"
    and "\<not> has_pair (\<lambda>c d. c = CHR ''.'' \<and> d \<noteq> CHR '' '') t"
  shows "pad_terminators (dedupe_terminators t) = t @ tailfix t"
  using assms
proof (induction t rule: induct_list012)
  case 1
  show ?case by (simp add: tailfix_def)
next
  case (2 x)
  consider "x = CHR ''.''" | "is_blank x" | "\<not> is_blank x" "x \<noteq> CHR ''.''"
    by blast
  then show ?case
  proof cases
    case 1
    then show ?thesis by (simp add: tailfix_def is_blank_def)
  next
    case 2
    then have "pad_terminators [x] = [x]"
      using pad_terminators_blank [of x "[]"] by simp
    with 2 show ?thesis by (simp add: tailfix_def is_blank_def)
  next
    case 3
    then have "pad_terminators [x] = [x]"
      using pad_terminators_other [of x "[]"] by simp
    with 3 show ?thesis by (simp add: tailfix_def)
  qed
next
  case (3 x y zs)
  from 3(3,4,5) have yzs:
      "\<not> has_pair (\<lambda>c d. c = CHR '' '' \<and> d = CHR '' '') (y # zs)"
      "\<not> has_pair (\<lambda>c d. c = CHR '' '' \<and> d = CHR ''.'') (y # zs)"
      "\<not> has_pair (\<lambda>c d. c = CHR ''.'' \<and> d \<noteq> CHR '' '') (y # zs)"
    by simp_all
  then have zs:
      "\<not> has_pair (\<lambda>c d. c = CHR '' '' \<and> d = CHR '' '') zs"
      "\<not> has_pair (\<lambda>c d. c = CHR '' '' \<and> d = CHR ''.'') zs"
      "\<not> has_pair (\<lambda>c d. c = CHR ''.'' \<and> d \<noteq> CHR '' '') zs"
    by (simp_all add: has_pair_Cons)
  have ih2: "pad_terminators (dedupe_terminators (y # zs)) = (y # zs) @ tailfix (y # zs)"
    using 3(2) yzs by blast
  have ih1: "pad_terminators (dedupe_terminators zs) = zs @ tailfix zs"
    using 3(1) zs by blast
  have tf: "tailfix (x # y # zs) = tailfix (y # zs)"
    by (rule tailfix_Cons) simp
  consider "x = CHR ''.''" | "is_blank x" | "\<not> is_blank x" "x \<noteq> CHR ''.''"
    by blast
  then show ?case
  proof cases
    case 1
    with 3(5) have y: "y = CHR '' ''" by simp
    have "zs = [] \<or> \<not> is_dot_or_blank (hd zs)"
    proof (cases zs)
      case Nil
      then show ?thesis by simp
    next
      case (Cons z zs')
      with yzs(1,2) y have "z \<noteq> CHR '' ''" "z \<noteq> CHR ''.''" by simp_all
      with Cons show ?thesis by (simp add: is_dot_or_blank_def)
    qed
    then have dd: "dedupe_terminators (x # y # zs) = CHR ''.'' # dedupe_terminators zs"
      unfolding 1 y by (rule dedupe_terminators_dot_blank)
    have "pad_terminators (dedupe_terminators (x # y # zs)) = ''. '' @ zs @ tailfix zs"
      by (simp only: dd pad_terminators_dot ih1)
    moreover have "tailfix (x # y # zs) = tailfix zs"
      unfolding tf using y by (cases zs) (simp_all add: tailfix_def)
    ultimately show ?thesis using 1 y by simp
  next
    case 2
    then have x: "x = CHR '' ''" by (simp add: is_blank_def)
    with 3(3,4) have y: "\<not> is_blank y" "y \<noteq> CHR ''.''"
      by (simp_all add: is_blank_def)
    have d: "dedupe_terminators (x # y # zs) = x # dedupe_terminators (y # zs)"
      using x by simp
    have "hd (dedupe_terminators (y # zs)) = y"
      using dedupe_terminators_hd [of "y # zs"] by simp
    with y have "pad_terminators (x # dedupe_terminators (y # zs))
        = x # pad_terminators (dedupe_terminators (y # zs))"
      using 2 by (intro pad_terminators_blank) simp_all
    with d ih2 tf show ?thesis by simp
  next
    case 3
    have d: "dedupe_terminators (x # y # zs) = x # dedupe_terminators (y # zs)"
      using 3(2) by simp
    have "pad_terminators (x # dedupe_terminators (y # zs))
        = x # pad_terminators (dedupe_terminators (y # zs))"
      using 3 by (rule pad_terminators_other)
    with d ih2 tf show ?thesis by simp
  qed
qed

lemma strip_trailing_all_space: "list_all is_space s \<Longrightarrow> strip_trailing s = []"
  by (cases s) simp_all

lemma strip_collapse_canonical:
  assumes "only_blanks t"
    and "\<not> has_pair (\<lambda>c d. c = CHR '' '' \<and> d = CHR '' '') t"
    and "t = [] \<or> \<not> is_space (last t)"
    and "ws = [] \<or> ws = '' ''"
  shows "strip_trailing (collapse_spaces (t @ ws)) = t"
  using assms(1,2,3)
proof (induction t)
  case Nil
  from assms(4) show ?case
    by (auto simp: is_space_def)
next
  case (Cons c cs)
  from Cons.prems(1) have ob: "only_blanks cs" and c: "c = CHR '' '' \<or> \<not> is_space c"
    by (simp_all add: only_blanks_Cons)
  from Cons.prems(2) have nb: "\<not> has_pair (\<lambda>c d. c = CHR '' '' \<and> d = CHR '' '') cs"
    by (simp add: has_pair_Cons)
  show ?case
  proof (cases "is_space c")
    case False
    from Cons.prems(3) have "cs = [] \<or> \<not> is_space (last cs)"
      by (cases cs) simp_all
    with Cons.IH ob nb have "strip_trailing (collapse_spaces (cs @ ws)) = cs"
      by blast
    with False show ?thesis by simp
  next
    case True
    with c have cb: "c = CHR '' ''" by blast
    from True Cons.prems(3) obtain d ds where cs: "cs = d # ds"
      by (cases cs) auto
    with Cons.prems(3) have "\<not> is_space (last cs)" by simp
    with Cons.IH ob nb have ih: "strip_trailing (collapse_spaces (cs @ ws)) = cs"
      by blast
    from Cons.prems(2) cb cs have "d \<noteq> CHR '' ''" by simp
    with ob cs have "\<not> is_space d" by (simp add: only_blanks_Cons)
    then have "dropWhile is_space (cs @ ws) = cs @ ws"
      unfolding cs by simp
    then have eq: "collapse_spaces ((c # cs) @ ws) = CHR '' '' # collapse_spaces (cs @ ws)"
      using True by simp
    have "\<not> list_all is_space (collapse_spaces (cs @ ws))"
    proof
      assume "list_all is_space (collapse_spaces (cs @ ws))"
      then have "strip_trailing (collapse_spaces (cs @ ws)) = []"
        by (rule strip_trailing_all_space)
      with ih cs show False by simp
    qed
    with eq ih cb show ?thesis by simp
  qed
qed

lemma preprocess_only_blanks: "only_blanks (preprocess text)"
  unfolding only_blanks_def list_all_iff using preprocess_blank by blast

text \<open>A text without tab, vertical tab and form feed is preprocessed to a fixed point.\<close>

lemma preprocess_idempotent_no_tabs:
  assumes "no_tabs text"
  shows "preprocess (preprocess text) = preprocess text"
proof -
  let ?t = "preprocess text"
  have nt: "\<not> has_tag ?t" by (rule preprocess_no_tag)
  have pl: "\<forall>x\<in>set ?t. plain_char x" by (rule preprocess_plain)
  have ob: "only_blanks ?t" by (rule preprocess_only_blanks)
  have s1: "sub_full_stop_tags ?t = ?t"
    using nt by (rule sub_full_stop_tags_no_tag)
  have s2: "strip_html ?t = ?t"
    using nt by (rule strip_html_no_tag_id)
  have s3: "sub_punct ?t = ?t"
    using pl by (rule sub_punct_plain)
  have s4: "unify_terminators ?t = ?t"
    using pl by (rule unify_terminators_plain)
  have s5: "strip_leading ?t = ?t"
    using preprocess_clean_head by (rule strip_leading_clean_head)
  have s6: "sub_newlines ?t = ?t"
    using ob by (rule sub_newlines_only_blanks)
  have s78: "pad_terminators (dedupe_terminators ?t) = ?t @ tailfix ?t"
    using preprocess_no_double_blank preprocess_no_blank_dot [OF assms] preprocess_dots_padded
    by (rule pad_dedupe_canonical)
  have last: "?t = [] \<or> \<not> is_space (last ?t)"
    using preprocess_no_outer_space [of "text"] by (auto simp: no_outer_space_def)
  have "tailfix ?t = [] \<or> tailfix ?t = '' ''"
    by (simp add: tailfix_def)
  with ob preprocess_no_double_blank last
  have s910: "strip_trailing (collapse_spaces (?t @ tailfix ?t)) = ?t"
    by (rule strip_collapse_canonical)
  have "preprocess ?t = strip_trailing (collapse_spaces (pad_terminators (dedupe_terminators
      (sub_newlines (strip_leading (unify_terminators (sub_punct (strip_html
         (sub_full_stop_tags ?t)))))))))"
    by (simp only: preprocess_def)
  also have "\<dots> = strip_trailing (collapse_spaces (pad_terminators (dedupe_terminators ?t)))"
    by (simp only: s1 s2 s3 s4 s5 s6)
  also have "\<dots> = ?t"
    by (simp only: s78 s910)
  finally show ?thesis .
qed

lemma no_tabs_preprocess: "no_tabs (preprocess text)"
proof -
  have "c \<noteq> CHR 0x09 \<and> c \<noteq> CHR 0x0B \<and> c \<noteq> CHR 0x0C" if "c \<in> set (preprocess text)" for c
  proof -
    from that preprocess_only_blanks have "c = CHR '' '' \<or> \<not> is_space c"
      unfolding only_blanks_def list_all_iff by blast
    then show ?thesis by (auto simp: is_space_def)
  qed
  then show ?thesis by (simp add: no_tabs_def list_all_iff)
qed

lemma preprocess_twice_fixed:
  "preprocess (preprocess (preprocess text)) = preprocess (preprocess text)"
  using no_tabs_preprocess by (rule preprocess_idempotent_no_tabs)

text \<open>
  Claim C3 says that the preprocessor is idempotent. A tab in front of a terminator breaks
  that: the terminator is padded before the tab is turned into a space, so the first pass
  leaves a space in front of the \<^verbatim>\<open>.\<close> and the second pass removes it.
\<close>

theorem preprocess_not_idempotent:
  "preprocess [CHR ''a'', CHR 0x09, CHR ''.'', CHR ''b''] = ''a . b''
   \<and> preprocess (preprocess [CHR ''a'', CHR 0x09, CHR ''.'', CHR ''b'']) = ''a. b''
   \<and> preprocess (preprocess [CHR ''a'', CHR 0x09, CHR ''.'', CHR ''b''])
       \<noteq> preprocess [CHR ''a'', CHR 0x09, CHR ''.'', CHR ''b'']"
  by code_simp

end
